theory Spec2Isabelle
  imports Main "HOL-Library.Word" "HOL-Library.Product_Lexorder"
begin

section \<open>Values, expressions and the Skip operator (execution_plan/ops/op_skip.c)\<close>

subsection \<open>Scalar values\<close>

text \<open>
  The type tags are the ones the snapshot encoder switches on in
  \<^verbatim>\<open>_RdbSaveSIValue\<close> (serializers/encoder/v14/encode_graph_entities.c).
\<close>

datatype SIType = T_BOOL | T_INT64 | T_DOUBLE | T_STRING | T_ARRAY | T_POINT
  | T_VECTOR_F32 | T_MAP | T_NULL

text \<open>
  Modelled from the spec: value.h (the \<^verbatim>\<open>SIValue\<close> union and the macros
  \<^verbatim>\<open>SI_TYPE\<close>, \<^verbatim>\<open>SI_GET_NUMERIC\<close>) is not among the sources. A scalar value
  is a tagged union; \<open>longval\<close> is its 64-bit integer member, read as a signed
  \<^verbatim>\<open>int64_t\<close>. The payload of a double is floating point and is not modelled:
  \<open>SI_GET_NUMERIC\<close> reads the integer member, which is what the macro yields for
  every value whose tag is \<open>T_INT64\<close>.
\<close>

record SIValue =
  type :: SIType
  longval :: "64 word"

definition SI_TYPE :: "SIValue \<Rightarrow> SIType" where
  "SI_TYPE s = type s"

definition SI_GET_NUMERIC :: "SIValue \<Rightarrow> 64 word" where
  "SI_GET_NUMERIC s = longval s"

definition SI_LongVal :: "int \<Rightarrow> SIValue" where
  "SI_LongVal n = \<lparr>type = T_INT64, longval = word_of_int n\<rparr>"

subsection \<open>Arithmetic expressions on a heap\<close>

text \<open>
  Modelled from the spec: the arithmetic-expression evaluator (\<^verbatim>\<open>AR_EXP_Clone\<close>,
  \<^verbatim>\<open>AR_EXP_Evaluate\<close>, \<^verbatim>\<open>AR_EXP_Free\<close>) is not among the sources. What op_skip.c
  relies on is written in its comments: an expression is an object that is cloned,
  and evaluating an expression modifies it in place, replacing a parameter with a
  constant. Expressions therefore live in a store, addressed by pointers; the two
  operand kinds a SKIP expression needs are a constant and a query parameter.
\<close>

datatype AR_ExpNode = AR_EXP_CONSTANT SIValue | AR_EXP_PARAM string

type_synonym exp_ptr = nat

record exp_heap =
  cells :: "exp_ptr \<rightharpoonup> AR_ExpNode"
  next_free :: exp_ptr

type_synonym params = "string \<Rightarrow> SIValue"

definition AR_EXP_Clone :: "exp_heap \<Rightarrow> exp_ptr \<Rightarrow> exp_ptr \<times> exp_heap" where
  "AR_EXP_Clone h p =
     (next_free h,
      h\<lparr>cells := (cells h)(next_free h := cells h p), next_free := Suc (next_free h)\<rparr>)"

definition AR_EXP_Evaluate :: "exp_heap \<Rightarrow> exp_ptr \<Rightarrow> params \<Rightarrow> SIValue \<times> exp_heap" where
  "AR_EXP_Evaluate h p ps =
     (case cells h p of
        Some (AR_EXP_CONSTANT v) \<Rightarrow> (v, h)
      | Some (AR_EXP_PARAM name) \<Rightarrow>
          (ps name, h\<lparr>cells := (cells h)(p \<mapsto> AR_EXP_CONSTANT (ps name))\<rparr>)
      | None \<Rightarrow> (\<lparr>type = T_NULL, longval = 0\<rparr>, h))"

definition AR_EXP_Free :: "exp_heap \<Rightarrow> exp_ptr \<Rightarrow> exp_heap" where
  "AR_EXP_Free h p = h\<lparr>cells := (cells h)(p := None)\<rparr>"

subsection \<open>The operator\<close>

text \<open>
  Modelled from the spec: the struct \<^verbatim>\<open>OpSkip\<close> is declared in op_skip.h, which is
  not among the sources. Its fields are the ones op_skip.c reads and writes; the two
  counters are taken as unsigned 64-bit integers, wide enough for every non-negative
  \<^verbatim>\<open>int64_t\<close>.
\<close>

record OpSkip =
  skip :: "64 word"
  skipped :: "64 word"
  skip_exp :: "exp_ptr option"

datatype error = EMSG_OPERATE_ON_NON_NEGATIVE_INT string

text \<open>\<^verbatim>\<open>_eval_skip\<close>: the error context is returned beside the operator and the heap.\<close>

definition eval_skip ::
  "OpSkip \<Rightarrow> exp_heap \<Rightarrow> exp_ptr \<Rightarrow> params \<Rightarrow> OpSkip \<times> exp_heap \<times> error option" where
  "eval_skip op h skip_exp_in ps =
     (let (stored, h1) = AR_EXP_Clone h skip_exp_in;
          op1 = op\<lparr>skip_exp := Some stored\<rparr>;
          (s, h2) = AR_EXP_Evaluate h1 skip_exp_in ps;
          err = (if SI_TYPE s \<noteq> T_INT64 \<or> SI_GET_NUMERIC s <s 0
                 then Some (EMSG_OPERATE_ON_NON_NEGATIVE_INT ''Skip'') else None);
          op2 = op1\<lparr>skip := SI_GET_NUMERIC s\<rparr>;
          h3 = AR_EXP_Free h2 skip_exp_in
      in (op2, h3, err))"

definition NewSkipOp :: "exp_heap \<Rightarrow> exp_ptr \<Rightarrow> params \<Rightarrow> OpSkip \<times> exp_heap \<times> error option" where
  "NewSkipOp h skip_exp_in ps =
     eval_skip \<lparr>skip = 0, skipped = 0, skip_exp = None\<rparr> h skip_exp_in ps"


subsection \<open>Pulling records\<close>

text \<open>
  Modelled from the spec: the operator base (\<^verbatim>\<open>OpBase_Consume\<close>,
  \<^verbatim>\<open>OpBase_DeleteRecord\<close>, the propagation of reset to children) is not among the
  sources. By the operator contract, consume returns a record or none, none meaning
  that the stream is exhausted; reset returns an operator to its initial state. A
  child operator is therefore the stream it produces from its initial state together
  with the part of it that is still to come.
\<close>

record 'r child_op =
  stream :: "'r list"
  pending :: "'r list"

definition new_child :: "'r list \<Rightarrow> 'r child_op" where
  "new_child xs = \<lparr>stream = xs, pending = xs\<rparr>"

definition OpBase_Consume :: "'r child_op \<Rightarrow> 'r option \<times> 'r child_op" where
  "OpBase_Consume child =
     (case pending child of
        [] \<Rightarrow> (None, child)
      | r # rs \<Rightarrow> (Some r, child\<lparr>pending := rs\<rparr>))"

definition OpBase_Reset :: "'r child_op \<Rightarrow> 'r child_op" where
  "OpBase_Reset child = child\<lparr>pending := stream child\<rparr>"

text \<open>
  The state of a running Skip: the operator, its child, and the records handed to
  \<^verbatim>\<open>OpBase_DeleteRecord\<close> so far, in order.
\<close>

type_synonym 'r skip_state = "OpSkip \<times> 'r child_op \<times> 'r list"

function SkipConsume :: "'r skip_state \<Rightarrow> 'r option \<times> 'r skip_state" where
  "SkipConsume (op, child, freed) =
     (if skipped op < skip op then
        (case OpBase_Consume child of
           (None, child') \<Rightarrow> (None, (op, child', freed))
         | (Some discard, child') \<Rightarrow>
             SkipConsume (op\<lparr>skipped := skipped op + 1\<rparr>, child', freed @ [discard]))
      else
        (case OpBase_Consume child of (r, child') \<Rightarrow> (r, (op, child', freed))))"
  by pat_completeness auto
termination
  by (relation "measure (\<lambda>(op, child, freed). length (pending child))")
     (auto simp: OpBase_Consume_def split: list.splits)

definition SkipReset :: "'r skip_state \<Rightarrow> 'r skip_state" where
  "SkipReset st = (case st of (op, child, freed) \<Rightarrow> (op\<lparr>skipped := 0\<rparr>, child, freed))"

definition SkipClone :: "exp_heap \<Rightarrow> OpSkip \<Rightarrow> params \<Rightarrow> (OpSkip \<times> exp_heap \<times> error option) option" where
  "SkipClone h op ps =
     (case skip_exp op of
        None \<Rightarrow> None
      | Some stored \<Rightarrow>
          (let (skip_exp_in, h1) = AR_EXP_Clone h stored in Some (NewSkipOp h1 skip_exp_in ps)))"

text \<open>
  The engine pulls the root of a plan until it returns none. For an arbitrary consume
  function this loop need not end, so it is a partial function: \<open>None\<close> is the
  loop that never returns.
\<close>

partial_function (option) consume_all ::
  "('s \<Rightarrow> 'r option \<times> 's) \<Rightarrow> 's \<Rightarrow> 'r list \<Rightarrow> ('r list \<times> 's) option" where
  "consume_all consume s acc =
     (case consume s of
        (None, s') \<Rightarrow> Some (acc, s')
      | (Some r, s') \<Rightarrow> consume_all consume s' (acc @ [r]))"

declare SkipConsume.simps [simp del]

text \<open>
  The plan template of scenario 2 of the specification: one expression cell holding
  the parameter \<open>$n\<close>, and a binding of \<open>n\<close> to an integer.
\<close>

definition skip_param_heap :: exp_heap where
  "skip_param_heap = \<lparr>cells = [0 \<mapsto> AR_EXP_PARAM ''n''], next_free = 1\<rparr>"

definition bind_n :: "int \<Rightarrow> params" where
  "bind_n v = (\<lambda>name. if name = ''n'' then SI_LongVal v else \<lparr>type = T_NULL, longval = 0\<rparr>)"


declare consume_all.simps [code]

section \<open>Matrices, the tuple iterator and the graph\<close>

datatype GrB_Info = GrB_SUCCESS | GxB_EXHAUSTED | GrB_NULL_POINTER | GrB_DIMENSION_MISMATCH

text \<open>
  Modelled from the spec: the delta matrix and its tuple iterator
  (graph/rg_matrix/rg_matrix.c, rg_matrix_iter.c) are not among the sources; only the
  header rg_matrix_iter.h is. A matrix is what a reader sees of it: its number of rows
  and the entries of the logical matrix, as (row, column, value) triples in the order
  the iterator yields them. By the iterator's contract this order is row-major with
  ascending columns and no position twice, which is \<open>row_major\<close> below; the loops
  that follow are written for any list and their properties are proved for row-major
  ones.
\<close>

type_synonym 'v tuple = "nat \<times> nat \<times> 'v"

record 'v RG_Matrix =
  nrows :: nat
  tuples :: "'v tuple list"

definition position :: "'v tuple \<Rightarrow> nat \<times> nat" where
  "position t = (fst t, fst (snd t))"

definition row_major :: "'v RG_Matrix \<Rightarrow> bool" where
  "row_major M = sorted_wrt (\<lambda>s t. position s < position t) (tuples M)"

text \<open>
  An iterator is detached (\<open>A = None\<close>) or attached to a matrix, with the tuples it
  has still to yield. \<^verbatim>\<open>is_attached\<close> compares matrices by value, where the source
  compares pointers.
\<close>

record 'v RG_MatrixTupleIter =
  A :: "'v RG_Matrix option"
  rest :: "'v tuple list"

definition detached_iter :: "'v RG_MatrixTupleIter" where
  "detached_iter = \<lparr>A = None, rest = []\<rparr>"

definition RG_MatrixTupleIter_attach :: "'v RG_MatrixTupleIter \<Rightarrow> 'v RG_Matrix \<Rightarrow> 'v RG_MatrixTupleIter" where
  "RG_MatrixTupleIter_attach it M = \<lparr>A = Some M, rest = tuples M\<rparr>"

definition RG_MatrixTupleIter_AttachRange ::
  "'v RG_MatrixTupleIter \<Rightarrow> 'v RG_Matrix \<Rightarrow> nat \<Rightarrow> nat \<Rightarrow> 'v RG_MatrixTupleIter" where
  "RG_MatrixTupleIter_AttachRange it M min_row max_row =
     \<lparr>A = Some M, rest = filter (\<lambda>t. min_row \<le> fst t \<and> fst t \<le> max_row) (tuples M)\<rparr>"

definition RG_MatrixTupleIter_detach :: "'v RG_MatrixTupleIter \<Rightarrow> 'v RG_MatrixTupleIter" where
  "RG_MatrixTupleIter_detach it = \<lparr>A = None, rest = []\<rparr>"

definition RG_MatrixTupleIter_is_attached :: "'v RG_MatrixTupleIter \<Rightarrow> 'v RG_Matrix \<Rightarrow> bool" where
  "RG_MatrixTupleIter_is_attached it M = (A it = Some M)"

definition RG_MatrixTupleIter_jump_to_row :: "'v RG_MatrixTupleIter \<Rightarrow> nat \<Rightarrow> 'v RG_MatrixTupleIter" where
  "RG_MatrixTupleIter_jump_to_row it rowIdx =
     (case A it of
        None \<Rightarrow> it
      | Some M \<Rightarrow> it\<lparr>rest := dropWhile (\<lambda>t. fst t < rowIdx) (tuples M)\<rparr>)"

text \<open>
  \<^verbatim>\<open>RG_MatrixTupleIter_next_BOOL\<close> and \<^verbatim>\<open>RG_MatrixTupleIter_next_UINT64\<close>: the status,
  the tuple when there is one, and the advanced iterator. Which of row, column and value
  the caller receives is its choice of output pointers.
\<close>

definition RG_MatrixTupleIter_next ::
  "'v RG_MatrixTupleIter \<Rightarrow> GrB_Info \<times> 'v tuple option \<times> 'v RG_MatrixTupleIter" where
  "RG_MatrixTupleIter_next it =
     (case A it of
        None \<Rightarrow> (GrB_NULL_POINTER, None, it)
      | Some M \<Rightarrow>
          (case rest it of
             [] \<Rightarrow> (GxB_EXHAUSTED, None, it)
           | t # ts \<Rightarrow> (GrB_SUCCESS, Some t, it\<lparr>rest := ts\<rparr>)))"

text \<open>
  A slot of a relation matrix holds one edge id, or, with the top bit set, a handle to an
  array of edge ids. \<^verbatim>\<open>SINGLE_EDGE\<close> tests the bit and \<^verbatim>\<open>CLEAR_MSB\<close> recovers the
  array; the two cases are the constructors.
\<close>

datatype EdgeSlot = Single nat | Multi "nat list"

definition SINGLE_EDGE :: "EdgeSlot \<Rightarrow> bool" where
  "SINGLE_EDGE x = (case x of Single e \<Rightarrow> True | Multi es \<Rightarrow> False)"

record Edge =
  entity_id :: nat
  srcNodeID :: nat
  destNodeID :: nat
  relationID :: nat

text \<open>
  Modelled from the spec: the graph facade (graph/graph.c) is not among the sources. The
  graph holds one label matrix per label and one relation matrix per relation type;
  fetching a matrix that does not exist trips the caller's assertion, which is
  \<open>None\<close> here. \<^verbatim>\<open>Graph_GetNode\<close> and \<^verbatim>\<open>Graph_GetEdge\<close> fetch the entity stored
  under an id; an entity is identified with its id, and an edge keeps the endpoints and
  relation the caller has set.
\<close>

record Graph =
  labels :: "bool RG_Matrix list"
  relations :: "EdgeSlot RG_Matrix list"

definition Graph_GetLabelMatrix :: "Graph \<Rightarrow> nat \<Rightarrow> bool RG_Matrix option" where
  "Graph_GetLabelMatrix g l = (if l < length (labels g) then Some (labels g ! l) else None)"

definition Graph_GetRelationMatrix :: "Graph \<Rightarrow> nat \<Rightarrow> EdgeSlot RG_Matrix option" where
  "Graph_GetRelationMatrix g r = (if r < length (relations g) then Some (relations g ! r) else None)"

definition Graph_RelationTypeCount :: "Graph \<Rightarrow> nat" where
  "Graph_RelationTypeCount g = length (relations g)"

definition Graph_GetEdge :: "Graph \<Rightarrow> nat \<Rightarrow> Edge \<Rightarrow> Edge" where
  "Graph_GetEdge g edge_id e = e\<lparr>entity_id := edge_id\<rparr>"

section \<open>Index population\<close>

text \<open>
  Modelled from the spec: index.h is not among the sources. An index has a state, an
  entity type and the id of the label or relation it covers; its content is the
  sequence of entities handed to \<^verbatim>\<open>Index_IndexNode\<close> and \<^verbatim>\<open>Index_IndexEdge\<close>.
\<close>

datatype IndexState = IDX_CREATED | IDX_POPULATING | IDX_ACTIVE | IDX_DROPPED

datatype GraphEntityType = GETYPE_NODE | GETYPE_EDGE

record Index =
  state :: IndexState
  entity_type :: GraphEntityType
  label_id :: nat
  indexed_nodes :: "nat list"
  indexed_edges :: "Edge list"

definition Index_IndexNode :: "Index \<Rightarrow> nat \<Rightarrow> Index" where
  "Index_IndexNode idx n = idx\<lparr>indexed_nodes := indexed_nodes idx @ [n]\<rparr>"

definition Index_IndexEdge :: "Index \<Rightarrow> Edge \<Rightarrow> Index" where
  "Index_IndexEdge idx e = idx\<lparr>indexed_edges := indexed_edges idx @ [e]\<rparr>"

definition Index_Enable :: "Index \<Rightarrow> Index" where
  "Index_Enable idx = (if state idx = IDX_POPULATING then idx\<lparr>state := IDX_ACTIVE\<rparr> else idx)"

text \<open>The local \<^verbatim>\<open>int batch_size = 1000\<close> of both populators.\<close>

definition batch_size :: nat where
  "batch_size = 1000"

text \<open>
  The inner loop of \<^verbatim>\<open>_Index_PopulateNodeIndex\<close>. The loop variables are the number
  of nodes indexed in the batch, the iterator, the last id read (unset before the first
  read) and the index. \<open>bs\<close> is the batch size.
\<close>

function node_batch_loop ::
  "nat \<Rightarrow> nat \<times> bool RG_MatrixTupleIter \<times> nat option \<times> Index
     \<Rightarrow> nat \<times> bool RG_MatrixTupleIter \<times> nat option \<times> Index" where
  "node_batch_loop bs (indexed, it, id', idx) =
     (if indexed < bs then
        (case RG_MatrixTupleIter_next it of
           (GrB_SUCCESS, Some t, it') \<Rightarrow>
             node_batch_loop bs (indexed + 1, it', Some (fst t), Index_IndexNode idx (fst t))
         | (info, r, it') \<Rightarrow> (indexed, it', id', idx))
      else (indexed, it, id', idx))"
  by pat_completeness auto
termination
  by (relation "measure (\<lambda>(bs, indexed, it, id', idx). bs - indexed)") auto

declare node_batch_loop.simps [simp del]

text \<open>
  The outer loop of \<^verbatim>\<open>_Index_PopulateNodeIndex\<close>. Each round is one window in which
  the read lock is held; \<open>log\<close> records, per window, the row the iterator jumped to
  and the node ids indexed. The result is \<open>None\<close> when the loop does not return: it
  runs forever, the matrix assertion fails, or \<^verbatim>\<open>id\<close> is read unset (possible only
  for a batch size of 0).
\<close>

partial_function (option) node_populate_loop ::
  "nat \<Rightarrow> Graph \<Rightarrow> Index \<Rightarrow> nat \<Rightarrow> bool RG_MatrixTupleIter \<Rightarrow> (nat \<times> nat list) list
     \<Rightarrow> (Index \<times> bool RG_MatrixTupleIter \<times> (nat \<times> nat list) list) option" where
  "node_populate_loop bs g idx rowIdx it log =
     (if state idx \<noteq> IDX_POPULATING then Some (idx, it, log)
      else
        (case Graph_GetLabelMatrix g (label_id idx) of
           None \<Rightarrow> None
         | Some m \<Rightarrow>
             (case node_batch_loop bs
                     (0, RG_MatrixTupleIter_jump_to_row (RG_MatrixTupleIter_attach it m) rowIdx,
                      None, idx) of
                (indexed, it', id', idx') \<Rightarrow>
                  (let log' = log @ [(rowIdx, drop (length (indexed_nodes idx)) (indexed_nodes idx'))]
                   in if indexed \<noteq> bs then Some (idx', it', log')
                      else
                        (case id' of
                           None \<Rightarrow> None
                         | Some i \<Rightarrow>
                             node_populate_loop bs g idx' (i + 1)
                               (RG_MatrixTupleIter_detach it') log')))))"

declare node_populate_loop.simps [code]

definition Index_PopulateNodeIndex ::
  "nat \<Rightarrow> Index \<Rightarrow> Graph \<Rightarrow> (Index \<times> (nat \<times> nat list) list) option" where
  "Index_PopulateNodeIndex bs idx g =
     map_option (\<lambda>(idx', it, log). (idx', log))
       (node_populate_loop bs g idx 0 detached_iter [])"


text \<open>
  \<^verbatim>\<open>_Index_PopulateEdgeIndex\<close>. Its skip loop advances the iterator while it yields
  an entry of row \<open>prev_src_id\<close> whose column is at most \<open>prev_dest_id\<close>. The
  value pointer passed is \<^verbatim>\<open>NULL\<close>: \<open>src_id\<close> and \<open>dest_id\<close> are overwritten at
  each successful step, \<open>edge_id\<close> is not.
\<close>

function skip_indexed_loop ::
  "nat \<Rightarrow> nat \<Rightarrow> EdgeSlot RG_MatrixTupleIter \<times> nat \<times> nat
     \<Rightarrow> GrB_Info \<times> EdgeSlot RG_MatrixTupleIter \<times> nat \<times> nat" where
  "skip_indexed_loop prev_src_id prev_dest_id (it, src_id, dest_id) =
     (case RG_MatrixTupleIter_next it of
        (GrB_SUCCESS, Some t, it') \<Rightarrow>
          (if fst t = prev_src_id \<and> fst (snd t) \<le> prev_dest_id
           then skip_indexed_loop prev_src_id prev_dest_id (it', fst t, fst (snd t))
           else (GrB_SUCCESS, it', fst t, fst (snd t)))
      | (info, r, it') \<Rightarrow> (info, it', src_id, dest_id))"
  by pat_completeness auto
termination
  by (relation "measure (\<lambda>(prev_src_id, prev_dest_id, it, src_id, dest_id). length (rest it))")
     (auto simp: RG_MatrixTupleIter_next_def split: option.splits list.splits)

declare skip_indexed_loop.simps [simp del]

text \<open>
  The body of the batch loop: index the edge, or every edge of the array, stored in
  \<open>edge_id\<close>, with the endpoints \<open>src_id\<close> and \<open>dest_id\<close>. The \<^verbatim>\<open>for\<close> loop
  assigns each array element to \<open>edge_id\<close>, which so ends as the last one.
\<close>

definition index_slot :: "Graph \<Rightarrow> Index \<Rightarrow> nat \<Rightarrow> nat \<Rightarrow> EdgeSlot \<Rightarrow> Index \<times> EdgeSlot" where
  "index_slot g idx src_id dest_id edge_id =
     (let e = \<lparr>entity_id = 0, srcNodeID = src_id, destNodeID = dest_id, relationID = label_id idx\<rparr>
      in case edge_id of
           Single x \<Rightarrow> (Index_IndexEdge idx (Graph_GetEdge g x e), edge_id)
         | Multi edgeIds \<Rightarrow>
             (fold (\<lambda>x idx'. Index_IndexEdge idx' (Graph_GetEdge g x e)) edgeIds idx,
              if edgeIds = [] then edge_id else Single (last edgeIds)))"

function edge_batch_loop ::
  "nat \<Rightarrow> Graph \<Rightarrow> nat \<times> EdgeSlot RG_MatrixTupleIter \<times> nat \<times> nat \<times> EdgeSlot \<times> Index
     \<Rightarrow> nat \<times> EdgeSlot RG_MatrixTupleIter \<times> nat \<times> nat \<times> EdgeSlot \<times> Index" where
  "edge_batch_loop bs g (indexed, it, src_id, dest_id, edge_id, idx) =
     (case index_slot g idx src_id dest_id edge_id of
        (idx', edge_id') \<Rightarrow>
          (if indexed + 1 < bs then
             (case RG_MatrixTupleIter_next it of
                (GrB_SUCCESS, Some t, it') \<Rightarrow>
                  edge_batch_loop bs g (indexed + 1, it', fst t, fst (snd t), snd (snd t), idx')
              | (info, r, it') \<Rightarrow> (indexed + 1, it', src_id, dest_id, edge_id', idx'))
           else (indexed + 1, it, src_id, dest_id, edge_id', idx')))"
  by pat_completeness auto
termination
  by (relation "measure (\<lambda>(bs, g, indexed, it, src_id, dest_id, edge_id, idx). bs - indexed)") auto

declare edge_batch_loop.simps [simp del]

text \<open>
  The outer loop. The variables that live across rounds are \<open>src_id\<close>,
  \<open>dest_id\<close>, \<open>edge_id\<close> and the iterator; \<open>prev_src_id\<close> and
  \<open>prev_dest_id\<close> are set from them at the start of each round. \<open>None\<close> is the
  loop that does not return.
\<close>

partial_function (option) edge_populate_loop ::
  "nat \<Rightarrow> Graph \<Rightarrow> Index \<Rightarrow> nat \<Rightarrow> nat \<Rightarrow> EdgeSlot \<Rightarrow> EdgeSlot RG_MatrixTupleIter
     \<Rightarrow> (Index \<times> EdgeSlot RG_MatrixTupleIter) option" where
  "edge_populate_loop bs g idx src_id dest_id edge_id it =
     (if state idx \<noteq> IDX_POPULATING then Some (idx, it)
      else
        (case Graph_GetRelationMatrix g (label_id idx) of
           None \<Rightarrow> None
         | Some m \<Rightarrow>
             (case skip_indexed_loop src_id dest_id
                     (RG_MatrixTupleIter_jump_to_row (RG_MatrixTupleIter_attach it m) src_id,
                      src_id, dest_id) of
                (info, it1, src_id1, dest_id1) \<Rightarrow>
                  (if info \<noteq> GrB_SUCCESS then Some (idx, it1)
                   else
                     (case edge_batch_loop bs g (0, it1, src_id1, dest_id1, edge_id, idx) of
                        (indexed, it2, src_id2, dest_id2, edge_id2, idx2) \<Rightarrow>
                          (if indexed \<noteq> bs then Some (idx2, it2)
                           else edge_populate_loop bs g idx2 src_id2 dest_id2 edge_id2
                                  (RG_MatrixTupleIter_detach it2)))))))"

declare edge_populate_loop.simps [code]

definition Index_PopulateEdgeIndex :: "nat \<Rightarrow> Index \<Rightarrow> Graph \<Rightarrow> Index option" where
  "Index_PopulateEdgeIndex bs idx g =
     map_option fst (edge_populate_loop bs g idx 0 0 (Single 0) detached_iter)"

text \<open>
  \<^verbatim>\<open>Index_Populate\<close>, called on an index in state \<open>IDX_POPULATING\<close>, with the
  source's batch size.
\<close>

definition Index_Populate :: "Index \<Rightarrow> Graph \<Rightarrow> Index option" where
  "Index_Populate idx g =
     (if entity_type idx = GETYPE_NODE
      then map_option (\<lambda>(idx', log). Index_Enable idx') (Index_PopulateNodeIndex batch_size idx g)
      else map_option Index_Enable (Index_PopulateEdgeIndex batch_size idx g))"


section \<open>NodeByLabelScan (execution_plan/ops/op_node_by_label_scan.c)\<close>

text \<open>
  Modelled from the spec: util/range/unsigned_range.c is not among the sources. A range
  of node ids has a lower and an upper bound, each inclusive or exclusive, and a
  validity flag; a new range is \<open>[0, UINT64_MAX]\<close>. Tightening with \<open>\<ge> v\<close> or
  \<open>< v\<close> intersects the range with that half line, and a range is valid when its
  bounds are in order: \<open>min \<le> max\<close> when both bounds are inclusive, \<open>min < max\<close>
  otherwise. The fields are the ones \<^verbatim>\<open>_ConstructIterator\<close> reads.
\<close>

record UnsignedRange =
  range_min :: "64 word"
  range_max :: "64 word"
  include_min :: bool
  include_max :: bool
  valid :: bool

datatype AST_Operator = OP_LT | OP_GE

definition UnsignedRange_New :: UnsignedRange where
  "UnsignedRange_New = \<lparr>range_min = 0, range_max = - 1, include_min = True, include_max = True, valid = True\<rparr>"

definition UnsignedRange_IsValid :: "UnsignedRange \<Rightarrow> bool" where
  "UnsignedRange_IsValid rng =
     (if \<not> valid rng then False
      else if include_min rng \<and> include_max rng then range_min rng \<le> range_max rng
      else range_min rng < range_max rng)"

definition UnsignedRange_TightenRange :: "UnsignedRange \<Rightarrow> AST_Operator \<Rightarrow> 64 word \<Rightarrow> UnsignedRange" where
  "UnsignedRange_TightenRange rng op v =
     (if \<not> valid rng then rng
      else
        (let rng' =
           (case op of
              OP_LT \<Rightarrow> if range_max rng \<ge> v then rng\<lparr>include_max := False, range_max := v\<rparr> else rng
            | OP_GE \<Rightarrow> if range_min rng < v then rng\<lparr>include_min := True, range_min := v\<rparr> else rng)
         in rng'\<lparr>valid := UnsignedRange_IsValid rng'\<rparr>))"

text \<open>The ids a range with its bounds admits.\<close>

definition in_range :: "UnsignedRange \<Rightarrow> 64 word \<Rightarrow> bool" where
  "in_range rng x =
     ((if include_min rng then range_min rng \<le> x else range_min rng < x) \<and>
      (if include_max rng then x \<le> range_max rng else x < range_max rng))"

text \<open>The range after the two tightenings of \<^verbatim>\<open>_ConstructIterator\<close>, for a matrix of \<open>nr\<close> rows.\<close>

definition tightened :: "UnsignedRange \<Rightarrow> nat \<Rightarrow> UnsignedRange" where
  "tightened rng nr =
     UnsignedRange_TightenRange (UnsignedRange_TightenRange rng OP_GE 0) OP_LT (of_nat nr)"

text \<open>
  Modelled from the spec: the query context, the schema lookup and the node scan context
  are not among the sources. A scan context names a label and holds its id, which is
  \<open>GRAPH_UNKNOWN_LABEL\<close> while the schema has no such label. For a label id that
  names no label matrix the scan sees a matrix without entries, of the graph's dimension
  (\<open>node_cap\<close>).
\<close>

definition GRAPH_UNKNOWN_LABEL :: int where
  "GRAPH_UNKNOWN_LABEL = - 2"

record NodeScanCtx =
  node_alias :: string
  label :: string
  scan_label_id :: int

record QueryCtx =
  graph :: Graph
  node_cap :: nat
  schema_id :: "string \<rightharpoonup> nat"

definition scan_label_matrix :: "QueryCtx \<Rightarrow> int \<Rightarrow> bool RG_Matrix" where
  "scan_label_matrix qc l =
     (if 0 \<le> l \<and> nat l < length (labels (graph qc)) then labels (graph qc) ! nat l
      else \<lparr>nrows = node_cap qc, tuples = []\<rparr>)"

datatype consume_fn = Fn_Consume | Fn_ConsumeFromChild | Fn_NoOp

text \<open>
  The operator: the fields of the struct that op_node_by_label_scan.c uses, the consume
  function and the children of its \<^verbatim>\<open>OpBase\<close>, and a flag that records a failed
  \<^verbatim>\<open>ASSERT\<close>. A record it emits is the child record it cloned, if any, with the node id
  it added.
\<close>

record 'r NodeByLabelScan =
  nctx :: NodeScanCtx
  id_range :: UnsignedRange
  iter :: "bool RG_MatrixTupleIter"
  child_record :: "'r option"
  op_consume :: consume_fn
  children :: "'r child_op list"
  assert_failed :: bool

type_synonym 'r scan_record = "'r option \<times> nat"

definition update_label_id :: "QueryCtx \<Rightarrow> 'r NodeByLabelScan \<Rightarrow> 'r NodeByLabelScan" where
  "update_label_id qc op =
     (if scan_label_id (nctx op) \<noteq> GRAPH_UNKNOWN_LABEL then op
      else
        (case schema_id qc (label (nctx op)) of
           None \<Rightarrow> op
         | Some i \<Rightarrow> op\<lparr>nctx := (nctx op)\<lparr>scan_label_id := int i\<rparr>\<rparr>))"

definition NewNodeByLabelScanOp :: "QueryCtx \<Rightarrow> NodeScanCtx \<Rightarrow> 'r child_op list \<Rightarrow> 'r NodeByLabelScan" where
  "NewNodeByLabelScanOp qc ctx cs =
     update_label_id qc
       \<lparr>nctx = ctx, id_range = UnsignedRange_New, iter = detached_iter, child_record = None,
        op_consume = Fn_Consume, children = cs, assert_failed = False\<rparr>"

definition NodeByLabelScanOp_SetIDRange :: "'r NodeByLabelScan \<Rightarrow> UnsignedRange \<Rightarrow> 'r NodeByLabelScan" where
  "NodeByLabelScanOp_SetIDRange op rng = op\<lparr>id_range := rng\<rparr>"

definition ConstructIterator :: "QueryCtx \<Rightarrow> 'r NodeByLabelScan \<Rightarrow> GrB_Info \<times> 'r NodeByLabelScan" where
  "ConstructIterator qc op =
     (let L = scan_label_matrix qc (scan_label_id (nctx op));
          range1 = UnsignedRange_TightenRange (id_range op) OP_GE 0;
          range2 = UnsignedRange_TightenRange range1 OP_LT (of_nat (nrows L));
          op1 = op\<lparr>id_range := range2\<rparr>
      in if \<not> UnsignedRange_IsValid range2 then (GrB_DIMENSION_MISMATCH, op1)
         else
           (let minId = (if include_min range2 then range_min range2 else range_min range2 + 1);
                maxId = (if include_max range2 then range_max range2 else range_max range2 - 1)
            in (GrB_SUCCESS,
                op1\<lparr>iter := RG_MatrixTupleIter_AttachRange (iter op1) L (unat minId) (unat maxId)\<rparr>)))"

definition NodeByLabelScanInit :: "QueryCtx \<Rightarrow> 'r NodeByLabelScan \<Rightarrow> 'r NodeByLabelScan" where
  "NodeByLabelScanInit qc op0 =
     (let op = op0\<lparr>op_consume := Fn_Consume\<rparr>
      in if length (children op) > 0 then op\<lparr>op_consume := Fn_ConsumeFromChild\<rparr>
         else if scan_label_id (nctx op) = GRAPH_UNKNOWN_LABEL then op\<lparr>op_consume := Fn_NoOp\<rparr>
         else
           (case ConstructIterator qc op of
              (iterator_built, op') \<Rightarrow>
                if iterator_built \<noteq> GrB_SUCCESS then op'\<lparr>op_consume := Fn_NoOp\<rparr> else op'))"

definition ResetIterator :: "QueryCtx \<Rightarrow> 'r NodeByLabelScan \<Rightarrow> 'r NodeByLabelScan" where
  "ResetIterator qc op = snd (ConstructIterator qc op)"

text \<open>
  The loop of \<^verbatim>\<open>NodeByLabelScanConsumeFromChild\<close>; \<open>info\<close> and \<open>nodeId\<close> are
  the status and the row of the last read of the iterator. The result is the record
  returned, if any, and the operator.
\<close>

function ConsumeFromChild_loop ::
  "QueryCtx \<Rightarrow> GrB_Info \<times> nat \<times> 'r NodeByLabelScan \<Rightarrow> 'r scan_record option \<times> 'r NodeByLabelScan" where
  "ConsumeFromChild_loop qc (info, nodeId, op) =
     (if info = GrB_NULL_POINTER \<or> child_record op = None \<or> info = GxB_EXHAUSTED then
        (case children op of
           [] \<Rightarrow> (None, op\<lparr>assert_failed := True\<rparr>)
         | child # cs \<Rightarrow>
             (case OpBase_Consume child of
                (None, child') \<Rightarrow> (None, op\<lparr>child_record := None, children := child' # cs\<rparr>)
              | (Some r, child') \<Rightarrow>
                  (let op1 = op\<lparr>child_record := Some r, children := child' # cs\<rparr>
                   in if info = GrB_NULL_POINTER then
                        (case ConstructIterator qc (update_label_id qc op1) of
                           (built, op2) \<Rightarrow>
                             if built \<noteq> GrB_SUCCESS
                             then ConsumeFromChild_loop qc (info, nodeId, op2)
                             else
                               (case RG_MatrixTupleIter_next (iter op2) of
                                  (info', t, it') \<Rightarrow>
                                    ConsumeFromChild_loop qc
                                      (info', case t of None \<Rightarrow> nodeId | Some x \<Rightarrow> fst x,
                                       op2\<lparr>iter := it'\<rparr>)))
                      else
                        (let op2 = ResetIterator qc op1
                         in case RG_MatrixTupleIter_next (iter op2) of
                              (info', t, it') \<Rightarrow>
                                ConsumeFromChild_loop qc
                                  (info', case t of None \<Rightarrow> nodeId | Some x \<Rightarrow> fst x,
                                   op2\<lparr>iter := it'\<rparr>)))))
      else (Some (child_record op, nodeId), op))"
  by pat_completeness auto
termination
  by (relation "measure (\<lambda>(qc, info, nodeId, op). length (concat (map pending (children op))))")
     (auto simp: OpBase_Consume_def ConstructIterator_def ResetIterator_def update_label_id_def Let_def
           split: list.splits if_splits option.splits)

declare ConsumeFromChild_loop.simps [simp del]

definition NodeByLabelScanConsumeFromChild ::
  "QueryCtx \<Rightarrow> 'r NodeByLabelScan \<Rightarrow> 'r scan_record option \<times> 'r NodeByLabelScan" where
  "NodeByLabelScanConsumeFromChild qc op =
     (case RG_MatrixTupleIter_next (iter op) of
        (info, t, it') \<Rightarrow>
          ConsumeFromChild_loop qc (info, case t of None \<Rightarrow> 0 | Some x \<Rightarrow> fst x, op\<lparr>iter := it'\<rparr>))"

definition NodeByLabelScanConsume ::
  "'r NodeByLabelScan \<Rightarrow> 'r scan_record option \<times> 'r NodeByLabelScan" where
  "NodeByLabelScanConsume op =
     (case RG_MatrixTupleIter_next (iter op) of
        (info, t, it') \<Rightarrow>
          if info = GxB_EXHAUSTED then (None, op\<lparr>iter := it'\<rparr>)
          else
            (case t of
               None \<Rightarrow> (None, op\<lparr>iter := it', assert_failed := True\<rparr>)
             | Some x \<Rightarrow> (Some (None, fst x), op\<lparr>iter := it'\<rparr>)))"

definition NodeByLabelScanNoOp ::
  "'r NodeByLabelScan \<Rightarrow> 'r scan_record option \<times> 'r NodeByLabelScan" where
  "NodeByLabelScanNoOp op = (None, op)"

text \<open>\<^verbatim>\<open>OpBase_Consume\<close> on the scan: the call through its consume function.\<close>

definition scan_consume ::
  "QueryCtx \<Rightarrow> 'r NodeByLabelScan \<Rightarrow> 'r scan_record option \<times> 'r NodeByLabelScan" where
  "scan_consume qc op =
     (case op_consume op of
        Fn_Consume \<Rightarrow> NodeByLabelScanConsume op
      | Fn_ConsumeFromChild \<Rightarrow> NodeByLabelScanConsumeFromChild qc op
      | Fn_NoOp \<Rightarrow> NodeByLabelScanNoOp op)"

definition NodeByLabelScanReset :: "QueryCtx \<Rightarrow> 'r NodeByLabelScan \<Rightarrow> 'r NodeByLabelScan" where
  "NodeByLabelScanReset qc op = ResetIterator qc (op\<lparr>child_record := None\<rparr>)"

text \<open>
  Modelled from the spec: the propagation of a reset through a plan is not among the
  sources. Resetting an operator in a plan resets the operator and its children.
\<close>

definition scan_reset :: "QueryCtx \<Rightarrow> 'r NodeByLabelScan \<Rightarrow> 'r NodeByLabelScan" where
  "scan_reset qc op = (NodeByLabelScanReset qc op)\<lparr>children := map OpBase_Reset (children op)\<rparr>"

definition skip_reset :: "'r skip_state \<Rightarrow> 'r skip_state" where
  "skip_reset st = (case SkipReset st of (op, child, freed) \<Rightarrow> (op, OpBase_Reset child, freed))"

text \<open>The state of an operator after \<open>k\<close> calls of its consume function.\<close>

fun pulls :: "nat \<Rightarrow> ('s \<Rightarrow> 'r option \<times> 's) \<Rightarrow> 's \<Rightarrow> 's" where
  "pulls 0 consume s = s"
| "pulls (Suc k) consume s = pulls k consume (snd (consume s))"


section \<open>LoadCSV (execution_plan/ops/op_load_csv.c)\<close>

text \<open>
  Modelled from the spec: the struct \<^verbatim>\<open>OpLoadCSV\<close> (op_load_csv.h), the CSV reader,
  the expression evaluator and the operator base are not among the sources. A value is
  its type tag and, for a string, its characters. The path expression is its value as a
  function of the record it is evaluated on (\<open>None\<close> for the empty record a tap
  creates). A reader is the rows it has still to yield, each row its fields; files are a
  map from paths to their rows; with headers the first row is not yielded as data.
  \<open>csv_reset\<close> is the reset function the operator is registered with, if any.
\<close>

record CSVValue =
  csv_type :: SIType
  stringval :: string

definition SI_NullVal :: CSVValue where
  "SI_NullVal = \<lparr>csv_type = T_NULL, stringval = []\<rparr>"

datatype csv_error = EMSG_INVALID_CSV_PATH | EMSG_FAILED_TO_LOAD_CSV string

datatype csv_consume_fn = Fn_LoadCSVConsume | Fn_LoadCSVConsumeDepleted | Fn_LoadCSVConsumeFromChild

datatype csv_reset_fn = Fn_LoadCSVReset

type_synonym csv_files = "string \<rightharpoonup> string list list"

record 'r OpLoadCSV =
  csv_exp :: "'r option \<Rightarrow> CSVValue"
  csv_path :: CSVValue
  csv_alias :: string
  csv_with_headers :: bool
  csv_reader :: "string list list option"
  csv_child :: "nat option"
  csv_children :: "'r child_op list"
  csv_child_record :: "'r option"
  csv_consume :: csv_consume_fn
  csv_reset :: "csv_reset_fn option"
  csv_error :: "csv_error option"
  csv_null_reader_read :: bool

type_synonym 'r csv_record = "'r option \<times> string list"

definition CSVReader_New :: "csv_files \<Rightarrow> string \<Rightarrow> bool \<Rightarrow> string list list option" where
  "CSVReader_New files path with_headers =
     (case files path of
        None \<Rightarrow> None
      | Some rows \<Rightarrow> Some (if with_headers then tl rows else rows))"

definition compute_path :: "'r OpLoadCSV \<Rightarrow> 'r option \<Rightarrow> bool \<times> 'r OpLoadCSV" where
  "compute_path op r =
     (let op1 = op\<lparr>csv_path := csv_exp op r\<rparr>
      in if csv_type (csv_path op1) \<noteq> T_STRING
         then (False, op1\<lparr>csv_error := Some EMSG_INVALID_CSV_PATH\<rparr>)
         else (True, op1))"

definition Init_CSVReader :: "csv_files \<Rightarrow> 'r OpLoadCSV \<Rightarrow> bool \<times> 'r OpLoadCSV" where
  "Init_CSVReader files op =
     (let path = stringval (csv_path op);
          op1 = op\<lparr>csv_reader := CSVReader_New files path (csv_with_headers op)\<rparr>
      in if csv_reader op1 = None
         then (False, op1\<lparr>csv_error := Some (EMSG_FAILED_TO_LOAD_CSV path)\<rparr>)
         else (True, op1))"

text \<open>\<^verbatim>\<open>_CSV_GetRow\<close>; a read through a reader that is \<^verbatim>\<open>NULL\<close> sets the flag.\<close>

definition CSV_GetRow :: "'r OpLoadCSV \<Rightarrow> string list option \<times> 'r OpLoadCSV" where
  "CSV_GetRow op =
     (case csv_reader op of
        None \<Rightarrow> (None, op\<lparr>csv_null_reader_read := True\<rparr>)
      | Some [] \<Rightarrow> (None, op)
      | Some (row # rows) \<Rightarrow> (Some row, op\<lparr>csv_reader := Some rows\<rparr>))"

text \<open>
  \<^verbatim>\<open>NewLoadCSVOp\<close>: \<^verbatim>\<open>OpBase_Init\<close> is given \<^verbatim>\<open>LoadCSVConsume\<close> as consume function
  and \<^verbatim>\<open>NULL\<close> as reset function. The children are the ones the plan attaches.
\<close>

definition NewLoadCSVOp ::
  "('r option \<Rightarrow> CSVValue) \<Rightarrow> string \<Rightarrow> bool \<Rightarrow> 'r child_op list \<Rightarrow> 'r OpLoadCSV" where
  "NewLoadCSVOp e a with_headers cs =
     \<lparr>csv_exp = e, csv_path = SI_NullVal, csv_alias = a, csv_with_headers = with_headers,
      csv_reader = None, csv_child = None, csv_children = cs, csv_child_record = None,
      csv_consume = Fn_LoadCSVConsume, csv_reset = None, csv_error = None,
      csv_null_reader_read = False\<rparr>"

definition LoadCSVInit :: "csv_files \<Rightarrow> 'r OpLoadCSV \<Rightarrow> 'r OpLoadCSV" where
  "LoadCSVInit files op =
     (if length (csv_children op) > 0
      then op\<lparr>csv_child := Some 0, csv_consume := Fn_LoadCSVConsumeFromChild\<rparr>
      else
        (case compute_path op None of
           (ok1, op1) \<Rightarrow>
             (let op2 = (if \<not> ok1 then op1\<lparr>csv_consume := Fn_LoadCSVConsumeDepleted\<rparr> else op1)
              in case Init_CSVReader files op2 of
                   (ok2, op3) \<Rightarrow>
                     if \<not> ok2 then op3\<lparr>csv_consume := Fn_LoadCSVConsumeDepleted\<rparr> else op3)))"

definition LoadCSVConsumeDepleted :: "'r OpLoadCSV \<Rightarrow> 'r csv_record option \<times> 'r OpLoadCSV" where
  "LoadCSVConsumeDepleted op = (None, op)"

definition LoadCSVConsume :: "'r OpLoadCSV \<Rightarrow> 'r csv_record option \<times> 'r OpLoadCSV" where
  "LoadCSVConsume op =
     (case CSV_GetRow op of
        (Some row, op') \<Rightarrow> (Some (None, row), op')
      | (None, op') \<Rightarrow> (None, op'))"

text \<open>
  \<^verbatim>\<open>LoadCSVConsumeFromChild\<close>. \<open>pull_from_child\<close> is the block guarded by
  \<^verbatim>\<open>op->child_record == NULL\<close>; it answers whether the function goes on to read a row.
\<close>

definition pull_from_child :: "csv_files \<Rightarrow> 'r OpLoadCSV \<Rightarrow> bool \<times> 'r OpLoadCSV" where
  "pull_from_child files op =
     (if csv_child_record op = None then
        (case csv_children op of
           [] \<Rightarrow> (False, op\<lparr>csv_null_reader_read := True\<rparr>)
         | ch # chs \<Rightarrow>
             (case OpBase_Consume ch of
                (None, ch') \<Rightarrow> (False, op\<lparr>csv_children := ch' # chs\<rparr>)
              | (Some r, ch') \<Rightarrow>
                  (case compute_path (op\<lparr>csv_child_record := Some r, csv_children := ch' # chs\<rparr>) (Some r) of
                     (ok1, op1) \<Rightarrow>
                       if \<not> ok1 then (False, op1)
                       else (case Init_CSVReader files op1 of (ok2, op2) \<Rightarrow> (ok2, op2)))))
      else (True, op))"

function LoadCSVConsumeFromChild ::
  "csv_files \<Rightarrow> 'r OpLoadCSV \<Rightarrow> 'r csv_record option \<times> 'r OpLoadCSV" where
  "LoadCSVConsumeFromChild files op =
     (case pull_from_child files op of
        (False, op1) \<Rightarrow> (None, op1)
      | (True, op1) \<Rightarrow>
          (case CSV_GetRow op1 of
             (Some row, op2) \<Rightarrow> (Some (csv_child_record op2, row), op2)
           | (None, op2) \<Rightarrow>
               LoadCSVConsumeFromChild files
                 (op2\<lparr>csv_child_record := None, csv_path := SI_NullVal\<rparr>)))"
  by pat_completeness auto
termination
  by (relation "measure (\<lambda>(files, op).
        2 * length (concat (map pending (csv_children op)))
        + (if csv_child_record op = None then 0 else 1))")
     (auto simp: pull_from_child_def CSV_GetRow_def compute_path_def Init_CSVReader_def
                 OpBase_Consume_def Let_def
           split: if_splits list.splits option.splits prod.splits)

declare LoadCSVConsumeFromChild.simps [simp del]

definition LoadCSVReset :: "'r OpLoadCSV \<Rightarrow> 'r OpLoadCSV" where
  "LoadCSVReset op = op\<lparr>csv_path := SI_NullVal, csv_child_record := None, csv_reader := None\<rparr>"

text \<open>\<^verbatim>\<open>OpBase_Consume\<close> on the operator: the call through its consume function.\<close>

definition load_csv_consume ::
  "csv_files \<Rightarrow> 'r OpLoadCSV \<Rightarrow> 'r csv_record option \<times> 'r OpLoadCSV" where
  "load_csv_consume files op =
     (case csv_consume op of
        Fn_LoadCSVConsume \<Rightarrow> LoadCSVConsume op
      | Fn_LoadCSVConsumeDepleted \<Rightarrow> LoadCSVConsumeDepleted op
      | Fn_LoadCSVConsumeFromChild \<Rightarrow> LoadCSVConsumeFromChild files op)"

text \<open>
  Modelled from the spec: the reset of an operator in a plan calls the reset function
  the operator is registered with, when it has one, and resets its children.
\<close>

definition load_csv_reset :: "'r OpLoadCSV \<Rightarrow> 'r OpLoadCSV" where
  "load_csv_reset op =
     (case csv_reset op of
        None \<Rightarrow> op
      | Some Fn_LoadCSVReset \<Rightarrow> LoadCSVReset op)\<lparr>csv_children := map OpBase_Reset (csv_children op)\<rparr>"

text \<open>Example: a file of two rows without headers, and a tap that loads it.\<close>

definition example_csv_files :: csv_files where
  "example_csv_files = [''rows.csv'' \<mapsto> [[''a''], [''b'']]]"

definition example_load_csv :: "nat OpLoadCSV" where
  "example_load_csv =
     LoadCSVInit example_csv_files
       (NewLoadCSVOp (\<lambda>r. \<lparr>csv_type = T_STRING, stringval = ''rows.csv''\<rparr>) ''row'' False [])"

section \<open>Encoding edges (serializers/encoder/v14/encode_graph_entities.c)\<close>

text \<open>
  Modelled from the spec: the encoding context (its getters and setters) is not among
  the sources. It holds what \<^verbatim>\<open>RdbSaveEdges_v14\<close> reads at entry and writes at exit:
  the number of entities already encoded, the current relation id, the matrix iterator,
  and, when the last call stopped inside a multi-edge slot, that slot's array, the index
  to resume from and the slot's endpoints. A new context starts at relation 0 with a
  detached iterator and no array.
\<close>

record GraphEncodeContext =
  enc_offset :: nat
  current_relation_matrix_id :: nat
  matrix_tuple_iterator :: "EdgeSlot RG_MatrixTupleIter"
  multiple_edges_array :: "nat list option"
  multiple_edges_current_index :: nat
  multiple_edges_src_id :: nat
  multiple_edges_dest_id :: nat

definition GraphEncodeContext_New :: GraphEncodeContext where
  "GraphEncodeContext_New =
     \<lparr>enc_offset = 0, current_relation_matrix_id = 0, matrix_tuple_iterator = detached_iter,
      multiple_edges_array = None, multiple_edges_current_index = 0,
      multiple_edges_src_id = 0, multiple_edges_dest_id = 0\<rparr>"

text \<open>
  The edges of a graph in the order of the claim: by relation id, within a relation in
  the order its matrix yields its entries, within a multi-edge slot in the order of the
  array. \<^verbatim>\<open>Graph_EdgeCount\<close> is modelled from the spec: every edge of the graph is
  referenced by exactly one slot.
\<close>

definition slot_edge_ids :: "EdgeSlot \<Rightarrow> nat list" where
  "slot_edge_ids x = (case x of Single e \<Rightarrow> [e] | Multi es \<Rightarrow> es)"

definition saved_edge :: "nat \<Rightarrow> nat \<Rightarrow> nat \<Rightarrow> nat \<Rightarrow> Edge" where
  "saved_edge r src dest e = \<lparr>entity_id = e, srcNodeID = src, destNodeID = dest, relationID = r\<rparr>"

definition matrix_edges :: "nat \<Rightarrow> EdgeSlot tuple list \<Rightarrow> Edge list" where
  "matrix_edges r ts =
     concat (map (\<lambda>t. map (saved_edge r (fst t) (fst (snd t))) (slot_edge_ids (snd (snd t)))) ts)"

definition graph_edges_from :: "Graph \<Rightarrow> nat \<Rightarrow> Edge list" where
  "graph_edges_from g r =
     concat (map (\<lambda>r'. matrix_edges r' (tuples (relations g ! r'))) [r..<length (relations g)])"

definition Graph_EdgeCount :: "Graph \<Rightarrow> nat" where
  "Graph_EdgeCount g = length (graph_edges_from g 0)"

text \<open>\<^verbatim>\<open>_RdbSaveEdge\<close>: the stream is the list of the edges written, with the relation written.\<close>

definition RdbSaveEdge :: "Edge list \<Rightarrow> Edge \<Rightarrow> nat \<Rightarrow> Edge list" where
  "RdbSaveEdge rdb e r = rdb @ [e\<lparr>relationID := r\<rparr>]"

text \<open>
  \<^verbatim>\<open>_RdbSaveMultipleEdges\<close>. Its local count of encoded edges is an \<^verbatim>\<open>uint\<close>: it
  starts as the caller's 64-bit count reduced modulo \<open>2 ^ 32\<close> and wraps at
  \<open>2 ^ 32\<close>.
\<close>

function save_multiple_loop ::
  "Graph \<Rightarrow> nat \<Rightarrow> nat list \<Rightarrow> nat \<Rightarrow> nat \<Rightarrow> nat \<Rightarrow> nat \<times> nat \<times> Edge list \<Rightarrow> nat \<times> nat \<times> Edge list" where
  "save_multiple_loop g r arr edges_to_encode src dest (i, encoded_edges_count, rdb) =
     (if i < length arr \<and> encoded_edges_count < edges_to_encode then
        save_multiple_loop g r arr edges_to_encode src dest
          (i + 1, (encoded_edges_count + 1) mod 2 ^ 32,
           RdbSaveEdge rdb
             (Graph_GetEdge g (arr ! i)
                \<lparr>entity_id = 0, srcNodeID = src, destNodeID = dest, relationID = 0\<rparr>) r)
      else (i, encoded_edges_count, rdb))"
  by pat_completeness auto
termination
  by (relation "measure (\<lambda>(g, r, arr, edges_to_encode, src, dest, i, c, rdb). length arr - i)") auto

declare save_multiple_loop.simps [simp del]

definition RdbSaveMultipleEdges ::
  "Edge list \<Rightarrow> Graph \<Rightarrow> nat \<Rightarrow> nat list \<Rightarrow> nat \<Rightarrow> nat \<Rightarrow> nat \<Rightarrow> nat \<Rightarrow> nat
     \<Rightarrow> nat \<times> nat \<times> Edge list" where
  "RdbSaveMultipleEdges rdb g r arr current_index encoded_edges edges_to_encode src dest =
     save_multiple_loop g r arr edges_to_encode src dest
       (current_index, encoded_edges mod 2 ^ 32, rdb)"

text \<open>
  The inner loop of \<^verbatim>\<open>RdbSaveEdges_v14\<close>, run while the iterator is exhausted: move
  to the next relation matrix and read from it. It ends in the jump to \<open>finish\<close>, in a
  failed assertion (no such matrix), or with the status and tuple of the last read.
\<close>

datatype fetch = Goto_finish nat "EdgeSlot RG_MatrixTupleIter" | Assert_failed
  | Fetched GrB_Info "EdgeSlot tuple option" nat "EdgeSlot RG_MatrixTupleIter"

function next_relation_loop ::
  "Graph \<Rightarrow> GrB_Info \<times> EdgeSlot tuple option \<times> nat \<times> EdgeSlot RG_MatrixTupleIter \<Rightarrow> fetch" where
  "next_relation_loop g (info, t, r, it) =
     (if info = GxB_EXHAUSTED then
        (if r + 1 = Graph_RelationTypeCount g then Goto_finish (r + 1) it
         else
           (case Graph_GetRelationMatrix g (r + 1) of
              None \<Rightarrow> Assert_failed
            | Some M \<Rightarrow>
                (case RG_MatrixTupleIter_next (RG_MatrixTupleIter_attach it M) of
                   (info', t', it') \<Rightarrow> next_relation_loop g (info', t', r + 1, it'))))
      else Fetched info t r it)"
  by pat_completeness auto
termination
  by (relation "measure (\<lambda>(g, info, t, r, it). Graph_RelationTypeCount g - r)")
     (auto simp: Graph_GetRelationMatrix_def Graph_RelationTypeCount_def split: if_splits)

declare next_relation_loop.simps [simp del]

text \<open>
  The state of the main loop: the relation id, the iterator, the endpoints last read, the
  multi-edge array and index, the number of edges encoded in this call and the stream.
\<close>

type_synonym save_state =
  "nat \<times> EdgeSlot RG_MatrixTupleIter \<times> nat \<times> nat \<times> nat list option \<times> nat \<times> nat \<times> Edge list"

function save_edges_loop :: "Graph \<Rightarrow> nat \<Rightarrow> save_state \<Rightarrow> save_state option" where
  "save_edges_loop g edges_to_encode (r, it, src, dest, arr, idx, encoded_edges, rdb) =
     (if encoded_edges < edges_to_encode then
        (case RG_MatrixTupleIter_next it of
           (info, t, it1) \<Rightarrow>
             (case next_relation_loop g (info, t, r, it1) of
                Goto_finish r' it' \<Rightarrow> Some (r', it', src, dest, arr, idx, encoded_edges, rdb)
              | Assert_failed \<Rightarrow> None
              | Fetched info' t' r' it' \<Rightarrow>
                  (if info' \<noteq> GrB_SUCCESS then None
                   else
                     (case t' of
                        None \<Rightarrow> None
                      | Some (src', dest', edgeID) \<Rightarrow>
                          (case edgeID of
                             Single e \<Rightarrow>
                               save_edges_loop g edges_to_encode
                                 (r', it', src', dest', arr, idx, encoded_edges + 1,
                                  RdbSaveEdge rdb
                                    (Graph_GetEdge g e
                                       \<lparr>entity_id = 0, srcNodeID = src', destNodeID = dest',
                                        relationID = 0\<rparr>) r')
                           | Multi es \<Rightarrow>
                               (case RdbSaveMultipleEdges rdb g r' es idx encoded_edges
                                       edges_to_encode src' dest' of
                                  (idx', encoded', rdb') \<Rightarrow>
                                    if encoded' = edges_to_encode
                                    then Some (r', it', src', dest', Some es, idx', encoded', rdb')
                                    else save_edges_loop g edges_to_encode
                                           (r', it', src', dest', None, 0, encoded', rdb')))))))
      else Some (r, it, src, dest, arr, idx, encoded_edges, rdb))"
  by pat_completeness auto
termination
proof -
  have fetched: "next_relation_loop g (info, t, r, it1) = Fetched info' t' r' it' \<Longrightarrow>
      (info \<noteq> GxB_EXHAUSTED \<and> r' = r \<and> it' = it1 \<and> info' = info \<and> t' = t)
      \<or> (r < r' \<and> r' < Graph_RelationTypeCount g)"
    for g info t r it1 info' t' r' it'
  proof (induction g "(info, t, r, it1)" arbitrary: info t r it1 rule: next_relation_loop.induct)
    case (1 g info t r it)
    show ?case
    proof (cases "info = GxB_EXHAUSTED")
      case False
      then show ?thesis using "1.prems" by (simp add: next_relation_loop.simps)
    next
      case True
      then have ne: "r + 1 \<noteq> Graph_RelationTypeCount g"
        using "1.prems" by (auto simp: next_relation_loop.simps)
      obtain M where M: "Graph_GetRelationMatrix g (r + 1) = Some M"
        using "1.prems" True ne
        by (cases "Graph_GetRelationMatrix g (r + 1)") (auto simp: next_relation_loop.simps)
      then have lt: "r + 1 < Graph_RelationTypeCount g"
        by (auto simp: Graph_GetRelationMatrix_def Graph_RelationTypeCount_def split: if_splits)
      obtain i2 t2 it2
        where n: "RG_MatrixTupleIter_next (RG_MatrixTupleIter_attach it M) = (i2, t2, it2)"
        by (cases "RG_MatrixTupleIter_next (RG_MatrixTupleIter_attach it M)") auto
      have "next_relation_loop g (i2, t2, r + 1, it2) = Fetched info' t' r' it'"
        using "1.prems" True ne M n by (simp add: next_relation_loop.simps)
      from "1.hyps"[OF True ne M n[symmetric] refl this] lt show ?thesis by auto
    qed
  qed
  have nxt: "(GrB_SUCCESS, t, it1) = RG_MatrixTupleIter_next it \<Longrightarrow> length (rest it1) < length (rest it)"
    for it :: "EdgeSlot RG_MatrixTupleIter" and t it1
    by (auto simp: RG_MatrixTupleIter_next_def split: option.splits list.splits)
  show ?thesis
    apply (relation "inv_image (less_than <*lex*> less_than)
        (\<lambda>(g, e2e, r, it, src, dest, arr, idx, enc, rdb).
           (Graph_RelationTypeCount g - r, length (rest it)))")
      apply auto[1]
    subgoal premises p
      using p by (auto dest!: fetched dest: nxt)
    subgoal premises p
      using p by (auto dest!: fetched dest: nxt)
    done
qed

declare save_edges_loop.simps [simp del]

text \<open>
  \<^verbatim>\<open>RdbSaveEdges_v14\<close>: the stream and the context after the call; \<open>None\<close> is a
  failed assertion.
\<close>

definition RdbSaveEdges_v14 ::
  "Edge list \<Rightarrow> Graph \<Rightarrow> GraphEncodeContext \<Rightarrow> nat \<Rightarrow> (Edge list \<times> GraphEncodeContext) option" where
  "RdbSaveEdges_v14 rdb g ctx edges_to_encode =
     (if edges_to_encode = 0 then Some (rdb, ctx)
      else
        (let graph_edges = Graph_EdgeCount g;
             offset = enc_offset ctx;
             r = current_relation_matrix_id ctx
         in case Graph_GetRelationMatrix g r of
              None \<Rightarrow> None
            | Some M \<Rightarrow>
                (let it0 = matrix_tuple_iterator ctx;
                     it = (if \<not> RG_MatrixTupleIter_is_attached it0 M
                           then RG_MatrixTupleIter_attach it0 M else it0);
                     src = multiple_edges_src_id ctx;
                     dest = multiple_edges_dest_id ctx;
                     resumed =
                       (case multiple_edges_array ctx of
                          None \<Rightarrow> (None, multiple_edges_current_index ctx, 0, rdb, False)
                        | Some arr \<Rightarrow>
                            (case RdbSaveMultipleEdges rdb g r arr (multiple_edges_current_index ctx)
                                    0 edges_to_encode src dest of
                               (idx', encoded', rdb') \<Rightarrow>
                                 if encoded' = edges_to_encode
                                 then (Some arr, idx', encoded', rdb', True)
                                 else (None, 0, encoded', rdb', False)))
                 in case resumed of
                      (arr1, idx1, encoded1, rdb1, finished) \<Rightarrow>
                        (case (if finished then Some (r, it, src, dest, arr1, idx1, encoded1, rdb1)
                               else save_edges_loop g edges_to_encode
                                      (r, it, src, dest, arr1, idx1, encoded1, rdb1)) of
                           None \<Rightarrow> None
                         | Some (r2, it2, src2, dest2, arr2, idx2, encoded2, rdb2) \<Rightarrow>
                             Some (rdb2,
                                   ctx\<lparr>current_relation_matrix_id := r2,
                                       matrix_tuple_iterator :=
                                         (if offset + edges_to_encode = graph_edges
                                          then RG_MatrixTupleIter_detach it2 else it2),
                                       multiple_edges_array := arr2,
                                       multiple_edges_current_index := idx2,
                                       multiple_edges_src_id := src2,
                                       multiple_edges_dest_id := dest2\<rparr>)))))"

text \<open>
  Modelled from the spec: the caller (encode_graph.c) is not among the sources. It calls
  \<^verbatim>\<open>RdbSaveEdges_v14\<close> once per payload of edges and then adds the payload's count to
  the offset of the context. The result is the stream written by each call.
\<close>

fun save_edges_calls ::
  "Graph \<Rightarrow> GraphEncodeContext \<Rightarrow> nat list \<Rightarrow> (Edge list list \<times> GraphEncodeContext) option" where
  "save_edges_calls g ctx [] = Some ([], ctx)"
| "save_edges_calls g ctx (k # ks) =
     (case RdbSaveEdges_v14 [] g ctx k of
        None \<Rightarrow> None
      | Some (out, ctx') \<Rightarrow>
          (case save_edges_calls g (ctx'\<lparr>enc_offset := enc_offset ctx' + k\<rparr>) ks of
             None \<Rightarrow> None
           | Some (outs, ctx'') \<Rightarrow> Some (out # outs, ctx'')))"

text \<open>Example: two relations, the second with a multi-edge slot of three edges.\<close>

definition example_multi_graph :: Graph where
  "example_multi_graph =
     \<lparr>labels = [],
      relations = [\<lparr>nrows = 3, tuples = [(0, 1, Single 0)]\<rparr>,
                   \<lparr>nrows = 3, tuples = [(0, 2, Multi [1, 2, 3]), (2, 0, Single 4)]\<rparr>]\<rparr>"

text \<open>
  Example: one relation with \<open>2 ^ 32\<close> single-edge slots followed by a multi-edge
  slot of two edges.
\<close>

definition example_big_graph :: Graph where
  "example_big_graph =
     \<lparr>labels = [],
      relations = [\<lparr>nrows = 2 ^ 32 + 1,
                    tuples = map (\<lambda>i. (i, i, Single i)) [0..<2 ^ 32]
                             @ [(2 ^ 32, 0, Multi [2 ^ 32, 2 ^ 32 + 1])]\<rparr>]\<rparr>"

text \<open>
  For the proofs: the edges still to be written from an iterator position on, the edges
  still to be written from a saved multi-edge array, and the invariant that ties an
  encoding context to the list \<open>P\<close> of edges not yet written.
\<close>

definition pending_edges :: "Graph \<Rightarrow> nat \<Rightarrow> EdgeSlot RG_MatrixTupleIter \<Rightarrow> Edge list" where
  "pending_edges g r it = matrix_edges r (rest it) @ graph_edges_from g (Suc r)"

definition array_edges :: "nat \<Rightarrow> nat \<Rightarrow> nat \<Rightarrow> nat list option \<Rightarrow> nat \<Rightarrow> Edge list" where
  "array_edges r src dest arr idx =
     (case arr of None \<Rightarrow> [] | Some es \<Rightarrow> map (saved_edge r src dest) (drop idx es))"

definition enc_inv :: "Graph \<Rightarrow> GraphEncodeContext \<Rightarrow> Edge list \<Rightarrow> bool" where
  "enc_inv g ctx P =
     (enc_offset ctx + length P = Graph_EdgeCount g
      \<and> (multiple_edges_array ctx = None \<longrightarrow> multiple_edges_current_index ctx = 0)
      \<and> (P \<noteq> [] \<longrightarrow>
           current_relation_matrix_id ctx < length (relations g)
           \<and> P = array_edges (current_relation_matrix_id ctx) (multiple_edges_src_id ctx)
                   (multiple_edges_dest_id ctx) (multiple_edges_array ctx)
                   (multiple_edges_current_index ctx)
                 @ pending_edges g (current_relation_matrix_id ctx)
                     (if RG_MatrixTupleIter_is_attached (matrix_tuple_iterator ctx)
                           (relations g ! current_relation_matrix_id ctx)
                      then matrix_tuple_iterator ctx
                      else RG_MatrixTupleIter_attach (matrix_tuple_iterator ctx)
                             (relations g ! current_relation_matrix_id ctx))))"


section \<open>Decoding a snapshot (serializers/decoders/prev/v13/decode_graph.c)\<close>

datatype MATRIX_POLICY = SYNC_POLICY_NOP | SYNC_POLICY_RESIZE | SYNC_POLICY_FLUSH_RESIZE

text \<open>
  Modelled from the spec: the graph facade, the graph context, the schemas and the
  decoding context are not among the sources. Of the graph the decoder touches the
  matrix-sync policy, whether some matrix has pending changes, whether the node-label
  matrix is set, and the numbers of labels, relation types and loaded entities.
  \<open>policy_log\<close> records the policy in force at each call that loads nodes or edges.
  Setting the node-label matrix writes to a matrix; \<^verbatim>\<open>Graph_ApplyAllPending\<close> flushes
  every matrix.
\<close>

record DecodedGraph =
  matrix_policy :: MATRIX_POLICY
  matrices_pending :: bool
  node_labels_set :: bool
  label_type_count :: nat
  relation_type_count :: nat
  entities_loaded :: nat
  policy_log :: "MATRIX_POLICY list"

definition Graph_SetMatrixPolicy :: "DecodedGraph \<Rightarrow> MATRIX_POLICY \<Rightarrow> DecodedGraph" where
  "Graph_SetMatrixPolicy dg p = dg\<lparr>matrix_policy := p\<rparr>"

definition Graph_ApplyAllPending :: "DecodedGraph \<Rightarrow> DecodedGraph" where
  "Graph_ApplyAllPending dg = dg\<lparr>matrices_pending := False\<rparr>"

definition Graph_Pending :: "DecodedGraph \<Rightarrow> bool" where
  "Graph_Pending dg = matrices_pending dg"

definition Serializer_Graph_SetNodeLabels :: "DecodedGraph \<Rightarrow> DecodedGraph" where
  "Serializer_Graph_SetNodeLabels dg = dg\<lparr>node_labels_set := True, matrices_pending := True\<rparr>"

definition load_entities :: "DecodedGraph \<Rightarrow> nat \<Rightarrow> DecodedGraph" where
  "load_entities dg count =
     dg\<lparr>entities_loaded := entities_loaded dg + count, matrices_pending := True,
        policy_log := policy_log dg @ [matrix_policy dg]\<rparr>"

text \<open>A schema holds an active index and a pending one, either of which may be absent.\<close>

record Schema =
  active_idx :: "Index option"
  pending_idx :: "Index option"

definition PENDING_IDX :: "Schema \<Rightarrow> Index option" where
  "PENDING_IDX sch = pending_idx sch"

definition Schema_ActivateIndex :: "Schema \<Rightarrow> Schema" where
  "Schema_ActivateIndex sch = sch\<lparr>active_idx := pending_idx sch, pending_idx := None\<rparr>"

record GraphDecodeContext =
  keys_processed :: nat
  graph_keys_count :: nat
  meta_keys :: "string list"
  ctx_multi_edge :: "nat list option"

definition GraphDecodeContext_New :: GraphDecodeContext where
  "GraphDecodeContext_New =
     \<lparr>keys_processed = 0, graph_keys_count = 1, meta_keys = [], ctx_multi_edge = None\<rparr>"

definition GraphDecodeContext_Finished :: "GraphDecodeContext \<Rightarrow> bool" where
  "GraphDecodeContext_Finished ctx = (keys_processed ctx = graph_keys_count ctx)"

definition GraphDecodeContext_Reset :: "GraphDecodeContext \<Rightarrow> GraphDecodeContext" where
  "GraphDecodeContext_Reset ctx =
     ctx\<lparr>keys_processed := 0, graph_keys_count := 1, ctx_multi_edge := None\<rparr>"

record GraphContext =
  graph_name :: string
  gc_graph :: DecodedGraph
  node_schemas :: "Schema list"
  edge_schemas :: "Schema list"
  decoding_context :: GraphDecodeContext

definition GraphContext_New :: "string \<Rightarrow> GraphContext" where
  "GraphContext_New name =
     \<lparr>graph_name = name,
      gc_graph = \<lparr>matrix_policy = SYNC_POLICY_FLUSH_RESIZE, matrices_pending = False,
                  node_labels_set = False, label_type_count = 0, relation_type_count = 0,
                  entities_loaded = 0, policy_log = []\<rparr>,
      node_schemas = [], edge_schemas = [],
      decoding_context = GraphDecodeContext_New\<rparr>"

text \<open>
  A virtual key as read from the stream: its header, its key schema (the payloads it
  carries) and its name. \<open>ENCODE_STATE_OTHER\<close> is any payload tag the decoder does not
  know.
\<close>

datatype EncodeState = ENCODE_STATE_NODES | ENCODE_STATE_DELETED_NODES | ENCODE_STATE_EDGES
  | ENCODE_STATE_DELETED_EDGES | ENCODE_STATE_GRAPH_SCHEMA | ENCODE_STATE_OTHER

record PayloadInfo =
  payload_state :: EncodeState
  entities_count :: nat

record VKey =
  key_graph_name :: string
  node_count :: nat
  edge_count :: nat
  deleted_node_count :: nat
  deleted_edge_count :: nat
  label_count :: nat
  relation_count :: nat
  multi_edge :: "nat list"
  key_number :: nat
  key_node_schemas :: "Schema list"
  key_edge_schemas :: "Schema list"
  key_schema :: "PayloadInfo list"
  key_name :: string

text \<open>
  \<^verbatim>\<open>_GetOrCreateGraphContext\<close>: \<open>registered\<close> is the context registered under the
  graph's name, if any.
\<close>

definition GetOrCreateGraphContext :: "GraphContext option \<Rightarrow> string \<Rightarrow> GraphContext" where
  "GetOrCreateGraphContext registered name =
     (case registered of
        Some gc \<Rightarrow> gc
      | None \<Rightarrow>
          (let gc = GraphContext_New name
           in gc\<lparr>gc_graph := Graph_SetMatrixPolicy (gc_graph gc) SYNC_POLICY_RESIZE\<rparr>))"

definition InitGraphDataStructure :: "DecodedGraph \<Rightarrow> nat \<Rightarrow> nat \<Rightarrow> DecodedGraph" where
  "InitGraphDataStructure dg label_count' relation_count' =
     Graph_ApplyAllPending
       (dg\<lparr>label_type_count := label_type_count dg + label_count',
           relation_type_count := relation_type_count dg + relation_count'\<rparr>)"

definition DecodeHeader :: "GraphContext option \<Rightarrow> VKey \<Rightarrow> GraphContext" where
  "DecodeHeader registered key =
     (let gc = GetOrCreateGraphContext registered (key_graph_name key);
          first_vkey = (keys_processed (decoding_context gc) = 0)
      in if first_vkey then
           gc\<lparr>gc_graph := InitGraphDataStructure (gc_graph gc) (label_count key) (relation_count key),
              decoding_context := (decoding_context gc)
                 \<lparr>ctx_multi_edge := Some (multi_edge key), graph_keys_count := key_number key\<rparr>,
              node_schemas := key_node_schemas key,
              edge_schemas := key_edge_schemas key\<rparr>
         else gc)"

text \<open>The payloads whose decoding loads entities: nodes and edges.\<close>

definition entity_payload :: "PayloadInfo \<Rightarrow> bool" where
  "entity_payload p = (payload_state p = ENCODE_STATE_NODES \<or> payload_state p = ENCODE_STATE_EDGES)"

text \<open>The loop of \<^verbatim>\<open>RdbLoadGraphContext_v13\<close> over the payloads; \<open>None\<close> is the failed assertion.\<close>

fun load_payloads :: "DecodedGraph \<Rightarrow> PayloadInfo list \<Rightarrow> DecodedGraph option" where
  "load_payloads dg [] = Some dg"
| "load_payloads dg (payload # rest') =
     (case payload_state payload of
        ENCODE_STATE_NODES \<Rightarrow>
          load_payloads (load_entities (Graph_SetMatrixPolicy dg SYNC_POLICY_NOP) (entities_count payload)) rest'
      | ENCODE_STATE_DELETED_NODES \<Rightarrow> load_payloads dg rest'
      | ENCODE_STATE_EDGES \<Rightarrow>
          load_payloads (load_entities (Graph_SetMatrixPolicy dg SYNC_POLICY_NOP) (entities_count payload)) rest'
      | ENCODE_STATE_DELETED_EDGES \<Rightarrow> load_payloads dg rest'
      | ENCODE_STATE_GRAPH_SCHEMA \<Rightarrow> load_payloads dg rest'
      | ENCODE_STATE_OTHER \<Rightarrow> None)"

text \<open>
  The two loops that enable the pending indices, over the schema ids \<open>0 .. count - 1\<close>;
  \<open>None\<close> when a schema id has no schema.
\<close>

definition enable_schema :: "Schema \<Rightarrow> Schema" where
  "enable_schema sch =
     (case PENDING_IDX sch of
        None \<Rightarrow> sch
      | Some idx \<Rightarrow> Schema_ActivateIndex (sch\<lparr>pending_idx := Some (Index_Enable idx)\<rparr>))"

fun enable_indices :: "nat list \<Rightarrow> Schema list \<Rightarrow> Schema list option" where
  "enable_indices [] schemas = Some schemas"
| "enable_indices (i # ids) schemas =
     (if i < length schemas
      then enable_indices ids (schemas[i := enable_schema (schemas ! i)])
      else None)"

definition RdbLoadGraphContext_v13 :: "GraphContext option \<Rightarrow> VKey \<Rightarrow> GraphContext option" where
  "RdbLoadGraphContext_v13 registered key =
     (let gc = DecodeHeader registered key
      in case load_payloads (gc_graph gc) (key_schema key) of
           None \<Rightarrow> None
         | Some dg \<Rightarrow>
             (let ctx1 = (decoding_context gc)\<lparr>keys_processed := keys_processed (decoding_context gc) + 1\<rparr>;
                  ctx2 = (if key_name key \<noteq> graph_name gc
                          then ctx1\<lparr>meta_keys := meta_keys ctx1 @ [key_name key]\<rparr> else ctx1);
                  gc1 = gc\<lparr>gc_graph := dg, decoding_context := ctx2\<rparr>
              in if GraphDecodeContext_Finished ctx2 then
                   (let dg1 = Serializer_Graph_SetNodeLabels dg;
                        dg2 = Graph_ApplyAllPending dg1;
                        dg3 = Graph_SetMatrixPolicy dg2 SYNC_POLICY_FLUSH_RESIZE
                    in case enable_indices [0..<label_type_count dg3] (node_schemas gc1) of
                         None \<Rightarrow> None
                       | Some ns \<Rightarrow>
                           (case enable_indices [0..<relation_type_count dg3] (edge_schemas gc1) of
                              None \<Rightarrow> None
                            | Some es \<Rightarrow>
                                if Graph_Pending dg3 then None
                                else Some (gc1\<lparr>gc_graph := dg3, node_schemas := ns, edge_schemas := es,
                                              decoding_context := GraphDecodeContext_Reset ctx2\<rparr>)))
                 else Some gc1))"

text \<open>
  Example: a snapshot of one key, with one label whose schema has a pending index, and
  payloads of two nodes and one edge.
\<close>

definition example_vkey :: VKey where
  "example_vkey =
     \<lparr>key_graph_name = ''G'', node_count = 2, edge_count = 1, deleted_node_count = 0,
      deleted_edge_count = 0, label_count = 1, relation_count = 0, multi_edge = [],
      key_number = 1,
      key_node_schemas =
        [\<lparr>active_idx = None,
          pending_idx = Some \<lparr>state = IDX_POPULATING, entity_type = GETYPE_NODE, label_id = 0,
                               indexed_nodes = [], indexed_edges = []\<rparr>\<rparr>],
      key_edge_schemas = [],
      key_schema = [\<lparr>payload_state = ENCODE_STATE_NODES, entities_count = 2\<rparr>,
                    \<lparr>payload_state = ENCODE_STATE_EDGES, entities_count = 1\<rparr>],
      key_name = ''G''\<rparr>"

text \<open>
  Two notions for the proofs about the scan. \<open>scan_tuples L R\<close> are the entries a
  freshly constructed iterator yields for the label matrix \<open>L\<close> and the tightened range
  \<open>R\<close>. \<open>scan_inv\<close> is what stays true of a child-driven scan while it runs over an
  unchanged graph: it consumes from its child, its label is known or absent from the
  schema, its label matrix and
  tightened range are \<open>L\<close> and \<open>R\<close>, it has one child, whose stream is \<open>xs\<close>, and its
  iterator is attached only when the range is valid.
\<close>

definition scan_tuples :: "bool RG_Matrix \<Rightarrow> UnsignedRange \<Rightarrow> bool tuple list" where
  "scan_tuples L R =
     (if UnsignedRange_IsValid R
      then filter (\<lambda>t. unat (if include_min R then range_min R else range_min R + 1) \<le> fst t
                     \<and> fst t \<le> unat (if include_max R then range_max R else range_max R - 1))
             (tuples L)
      else [])"

definition scan_inv ::
  "QueryCtx \<Rightarrow> bool RG_Matrix \<Rightarrow> UnsignedRange \<Rightarrow> 'r list \<Rightarrow> 'r NodeByLabelScan \<Rightarrow> bool" where
  "scan_inv qc L R xs op =
     (op_consume op = Fn_ConsumeFromChild
      \<and> (scan_label_id (nctx op) \<noteq> GRAPH_UNKNOWN_LABEL \<or> schema_id qc (label (nctx op)) = None)
      \<and> scan_label_matrix qc (scan_label_id (nctx op)) = L
      \<and> tightened (id_range op) (nrows L) = R
      \<and> (\<exists>ch. children op = [ch] \<and> stream ch = xs)
      \<and> (A (iter op) = None \<or> UnsignedRange_IsValid R))"

text \<open>
  Example inputs: a node index over label 0 of a graph whose nodes 0 to 4 carry the
  label, and an edge index over relation 1 of two small graphs.
\<close>

definition example_node_index :: Index where
  "example_node_index =
     \<lparr>state = IDX_POPULATING, entity_type = GETYPE_NODE, label_id = 0,
      indexed_nodes = [], indexed_edges = []\<rparr>"

definition example_label_matrix :: "bool RG_Matrix" where
  "example_label_matrix =
     \<lparr>nrows = 5,
      tuples = [(0, 0, True), (1, 1, True), (2, 2, True), (3, 3, True), (4, 4, True)]\<rparr>"

definition example_label_graph :: Graph where
  "example_label_graph = \<lparr>labels = [example_label_matrix], relations = []\<rparr>"

definition example_edge_index :: Index where
  "example_edge_index =
     \<lparr>state = IDX_POPULATING, entity_type = GETYPE_EDGE, label_id = 1,
      indexed_nodes = [], indexed_edges = []\<rparr>"

definition example_two_relations :: Graph where
  "example_two_relations =
     \<lparr>labels = [],
      relations = [\<lparr>nrows = 3, tuples = [(0, 1, Single 0)]\<rparr>,
                   \<lparr>nrows = 3, tuples = [(1, 2, Single 1)]\<rparr>]\<rparr>"

definition example_self_loop :: Graph where
  "example_self_loop =
     \<lparr>labels = [],
      relations = [\<lparr>nrows = 3, tuples = []\<rparr>,
                   \<lparr>nrows = 3,
                    tuples = [(0, 0, Single 0), (0, 1, Single 1), (2, 1, Multi [2, 3])]\<rparr>]\<rparr>"

text \<open>
  Scenario 1 of the specification: nodes 0 to 9, the label on the even ids, and a scan
  of the label restricted to ids below 6.
\<close>

definition example_even_labels :: "bool RG_Matrix" where
  "example_even_labels =
     \<lparr>nrows = 10,
      tuples = [(0, 0, True), (2, 2, True), (4, 4, True), (6, 6, True), (8, 8, True)]\<rparr>"

definition example_query_ctx :: QueryCtx where
  "example_query_ctx =
     \<lparr>graph = \<lparr>labels = [example_even_labels], relations = []\<rparr>, node_cap = 10,
      schema_id = [''L'' \<mapsto> 0]\<rparr>"

definition example_scan :: "'r child_op list \<Rightarrow> 'r NodeByLabelScan" where
  "example_scan cs =
     NodeByLabelScanOp_SetIDRange
       (NewNodeByLabelScanOp example_query_ctx
          \<lparr>node_alias = ''n'', label = ''L'', scan_label_id = GRAPH_UNKNOWN_LABEL\<rparr> cs)
       (UnsignedRange_TightenRange UnsignedRange_New OP_LT 6)"

section \<open>Properties of the Skip operator\<close>

lemma unat_succ_lt: "(a::64 word) < b \<Longrightarrow> unat (a + 1) = Suc (unat a)"
  by unat_arith

lemma skip_phase:
  "unat (skipped op) \<le> unat (skip op) \<Longrightarrow>
   SkipConsume (op, child, freed) =
     (let k = unat (skip op) - unat (skipped op); xs = pending child in
      if k < length xs
      then (Some (xs ! k), (op\<lparr>skipped := skip op\<rparr>, child\<lparr>pending := drop (Suc k) xs\<rparr>, freed @ take k xs))
      else (None, (op\<lparr>skipped := skipped op + of_nat (length xs)\<rparr>, child\<lparr>pending := []\<rparr>, freed @ xs)))"
proof (induction "pending child" arbitrary: op child freed)
  case Nil
  then show ?case by (auto simp: SkipConsume.simps OpBase_Consume_def Let_def word_less_nat_alt)
next
  case (Cons x xs)
  let ?xs = "pending child"
  have px: "pending child = x # xs" using Cons.hyps(2) by simp
  show ?case
  proof (cases "skipped op < skip op")
    case False
    then have "unat (skip op) - unat (skipped op) = 0" using Cons.prems
      by (simp add: word_less_nat_alt)
    moreover have "skipped op = skip op" using False Cons.prems
      by (simp add: word_less_nat_alt word_unat_eq_iff)
    ultimately show ?thesis using False px
      by (simp add: SkipConsume.simps OpBase_Consume_def Let_def)
  next
    case True
    let ?op' = "op\<lparr>skipped := skipped op + 1\<rparr>"
    let ?child' = "child\<lparr>pending := xs\<rparr>"
    have u: "unat (skipped ?op') = Suc (unat (skipped op))"
      using True by (simp add: unat_succ_lt)
    have le: "unat (skipped ?op') \<le> unat (skip ?op')"
      using True u by (simp add: word_less_nat_alt)
    have step: "SkipConsume (op, child, freed) = SkipConsume (?op', ?child', freed @ [x])"
      using True px by (simp add: SkipConsume.simps OpBase_Consume_def)
    have k: "unat (skip op) - unat (skipped op) = Suc (unat (skip ?op') - unat (skipped ?op'))"
      using True u by (simp add: word_less_nat_alt)
    have IH: "SkipConsume (?op', ?child', freed @ [x]) = 
     (let k = unat (skip ?op') - unat (skipped ?op'); xs = pending ?child' in
      if k < length xs
      then (Some (xs ! k), (?op'\<lparr>skipped := skip ?op'\<rparr>, ?child'\<lparr>pending := drop (Suc k) xs\<rparr>, (freed @ [x]) @ take k xs))
      else (None, (?op'\<lparr>skipped := skipped ?op' + of_nat (length xs)\<rparr>, ?child'\<lparr>pending := []\<rparr>, (freed @ [x]) @ xs)))"
      by (rule Cons.hyps(1)[OF _ le]) simp
    show ?thesis
      unfolding step IH k using px by (simp add: Let_def add.assoc)
  qed
qed

lemma pass_phase:
  "\<not> skipped op < skip op \<Longrightarrow>
   consume_all SkipConsume (op, child, freed) acc =
     Some (acc @ pending child, (op, child\<lparr>pending := []\<rparr>, freed))"
proof (induction "pending child" arbitrary: child acc)
  case Nil
  then show ?case
    by (subst consume_all.simps) (simp add: SkipConsume.simps OpBase_Consume_def)
next
  case (Cons x xs)
  have px: "pending child = x # xs" using Cons.hyps(2) by simp
  have "consume_all SkipConsume (op, child, freed) acc
        = consume_all SkipConsume (op, child\<lparr>pending := xs\<rparr>, freed) (acc @ [x])"
    using Cons.prems px by (subst consume_all.simps) (simp add: SkipConsume.simps OpBase_Consume_def)
  also have "\<dots> = Some ((acc @ [x]) @ pending (child\<lparr>pending := xs\<rparr>), (op, child\<lparr>pending := xs, pending := []\<rparr>, freed))"
    by (rule Cons.hyps(1)) (use Cons.prems in simp_all)
  finally show ?case using px by simp
qed

lemma skip_consume_all:
  assumes "unat (skipped op) \<le> unat (skip op)"
  shows "consume_all SkipConsume (op, child, freed) [] =
     Some (drop (unat (skip op) - unat (skipped op)) (pending child),
           (op\<lparr>skipped := (if unat (skip op) - unat (skipped op) < length (pending child) then skip op
                             else skipped op + of_nat (length (pending child)))\<rparr>,
            child\<lparr>pending := []\<rparr>,
            freed @ take (unat (skip op) - unat (skipped op)) (pending child)))"
proof (cases "unat (skip op) - unat (skipped op) < length (pending child)")
  case True
  let ?k = "unat (skip op) - unat (skipped op)"
  have "consume_all SkipConsume (op, child, freed) [] =
        consume_all SkipConsume (op\<lparr>skipped := skip op\<rparr>, child\<lparr>pending := drop (Suc ?k) (pending child)\<rparr>, freed @ take ?k (pending child)) ([] @ [pending child ! ?k])"
    using True by (subst consume_all.simps) (simp add: skip_phase[OF assms] Let_def)
  also have "\<dots> = Some (([] @ [pending child ! ?k]) @ drop (Suc ?k) (pending child), 
      (op\<lparr>skipped := skip op\<rparr>, child\<lparr>pending := drop (Suc ?k) (pending child), pending := []\<rparr>, freed @ take ?k (pending child)))"
    by (subst pass_phase) simp_all
  finally show ?thesis using True by (simp add: Cons_nth_drop_Suc)
next
  case False
  then show ?thesis
    by (subst consume_all.simps) (simp add: skip_phase[OF assms] Let_def)
qed

lemma uint_of_nonneg: "0 \<le> sint (w::64 word) \<Longrightarrow> uint w = sint w"
proof -
  assume nn: "0 \<le> sint w"
  have "sint w < 2 ^ 63" using sint_lt[of w] by simp
  then have "sint w < 2 ^ 64" by simp
  then have "take_bit 64 (sint w) = sint w" using nn by (simp add: take_bit_int_eq_self)
  then show ?thesis using uint_sint[of w] by simp
qed

lemma unat_of_nonneg: "0 \<le> sint (w::64 word) \<Longrightarrow> unat w = nat (sint w)"
  by (metis uint_of_nonneg unat_eq_nat_uint)

lemma clone_cells_old: "q < next_free h \<Longrightarrow> cells (snd (AR_EXP_Clone h p)) q = cells h q"
  by (simp add: AR_EXP_Clone_def)

lemma eval_after_clone:
  "p < next_free h \<Longrightarrow> fst (AR_EXP_Evaluate (snd (AR_EXP_Clone h q)) p ps) = fst (AR_EXP_Evaluate h p ps)"
  by (simp add: AR_EXP_Evaluate_def AR_EXP_Clone_def split: option.splits AR_ExpNode.splits)

lemma NewSkipOp_fields:
  assumes "p < next_free h" "NewSkipOp h p ps = (op, h', err)"
  shows "skip op = longval (fst (AR_EXP_Evaluate h p ps))"
    and "skipped op = 0"
    and "skip_exp op = Some (next_free h)"
    and "err = (if type (fst (AR_EXP_Evaluate h p ps)) \<noteq> T_INT64 \<or> sint (longval (fst (AR_EXP_Evaluate h p ps))) < 0
                then Some (EMSG_OPERATE_ON_NON_NEGATIVE_INT ''Skip'') else None)"
    and "cells h' (next_free h) = cells h p"
    and "next_free h' = Suc (next_free h)"
  using assms eval_after_clone[OF assms(1), of p ps]
  by (auto simp: NewSkipOp_def eval_skip_def SI_TYPE_def SI_GET_NUMERIC_def word_sless_alt
                 AR_EXP_Clone_def AR_EXP_Evaluate_def AR_EXP_Free_def
           split: prod.splits option.splits AR_ExpNode.splits if_splits)

lemma eval_same_cell:
  "cells h a = cells h' b \<Longrightarrow> fst (AR_EXP_Evaluate h a ps) = fst (AR_EXP_Evaluate h' b ps)"
  by (simp add: AR_EXP_Evaluate_def split: option.splits AR_ExpNode.splits)

lemma ev2: "fst (AR_EXP_Evaluate skip_param_heap 0 (bind_n v)) = SI_LongVal v"
  by (simp add: AR_EXP_Evaluate_def skip_param_heap_def bind_n_def)

text \<open>
  Claim C7. Building a Skip operator sets the error
  \<open>EMSG_OPERATE_ON_NON_NEGATIVE_INT\<close> if and only if the value its expression
  evaluates to is not of type \<open>T_INT64\<close> or is negative; for a non-negative
  \<open>T_INT64\<close> value no error is set and the operator's skip count is that value.
\<close>

theorem skip_build_error_iff:
  assumes "p < next_free h" and "NewSkipOp h p ps = (op, h', err)"
    and "s = fst (AR_EXP_Evaluate h p ps)"
  shows "(err \<noteq> None \<longleftrightarrow> SI_TYPE s \<noteq> T_INT64 \<or> sint (SI_GET_NUMERIC s) < 0)
       \<and> (SI_TYPE s = T_INT64 \<and> 0 \<le> sint (SI_GET_NUMERIC s) \<longrightarrow>
            err = None \<and> uint (skip op) = sint (SI_GET_NUMERIC s))"
  using NewSkipOp_fields(1,4)[OF assms(1,2)] assms(3) uint_of_nonneg[of "longval s"]
  by (auto simp: SI_TYPE_def SI_GET_NUMERIC_def)

theorem skip_build_error_iff_witness:
  "0 < next_free skip_param_heap
   \<and> SI_TYPE (fst (AR_EXP_Evaluate skip_param_heap 0 (bind_n 2))) = T_INT64
   \<and> 0 \<le> sint (SI_GET_NUMERIC (fst (AR_EXP_Evaluate skip_param_heap 0 (bind_n 2))))
   \<and> snd (snd (NewSkipOp skip_param_heap 0 (bind_n 2))) = None
   \<and> uint (skip (fst (NewSkipOp skip_param_heap 0 (bind_n 2)))) = 2
   \<and> sint (SI_GET_NUMERIC (fst (AR_EXP_Evaluate skip_param_heap 0 (bind_n (- 1))))) < 0
   \<and> snd (snd (NewSkipOp skip_param_heap 0 (bind_n (- 1)))) \<noteq> None"
proof -
  let ?h = skip_param_heap
  have a: "0 < next_free ?h" by (simp add: skip_param_heap_def)
  have b: "NewSkipOp ?h 0 ps = (fst (NewSkipOp ?h 0 ps), fst (snd (NewSkipOp ?h 0 ps)), snd (snd (NewSkipOp ?h 0 ps)))" for ps
    by simp
  have c: "SI_TYPE (fst (AR_EXP_Evaluate ?h 0 (bind_n 2))) = T_INT64"
    by (simp add: ev2 SI_TYPE_def SI_LongVal_def)
  have d: "sint (SI_GET_NUMERIC (fst (AR_EXP_Evaluate ?h 0 (bind_n 2)))) = 2"
    by (simp add: ev2 SI_GET_NUMERIC_def SI_LongVal_def)
  have e: "sint (SI_GET_NUMERIC (fst (AR_EXP_Evaluate ?h 0 (bind_n (- 1))))) < 0"
    by (simp add: ev2 SI_GET_NUMERIC_def SI_LongVal_def)
  show ?thesis
    using a c d e skip_build_error_iff [OF a b refl, of "bind_n 2"]
      skip_build_error_iff [OF a b refl, of "bind_n (- 1)"]
    by auto
qed

lemma new_skip_consume_all:
  assumes "p < next_free h" and "NewSkipOp h p ps = (op, h', err)"
    and "s = fst (AR_EXP_Evaluate h p ps)"
    and "SI_TYPE s = T_INT64" and "0 \<le> sint (SI_GET_NUMERIC s)"
    and "n = nat (sint (SI_GET_NUMERIC s))"
  shows "err = None \<and>
         (\<exists>op'. consume_all SkipConsume (op, new_child xs, []) [] =
                  Some (drop n xs, (op', \<lparr>stream = xs, pending = []\<rparr>, take n xs)))"
proof -
  have sk: "skip op = longval s" and sd: "skipped op = 0"
    using NewSkipOp_fields(1,2)[OF assms(1,2)] assms(3) by simp_all
  have e: "err = None"
    using NewSkipOp_fields(4)[OF assms(1,2)] assms(3-5) by (simp add: SI_TYPE_def SI_GET_NUMERIC_def)
  have n: "unat (skip op) - unat (skipped op) = n"
    using sk sd assms(5,6) by (simp add: SI_GET_NUMERIC_def unat_of_nonneg)
  have "unat (skipped op) \<le> unat (skip op)" using sd by simp
  from skip_consume_all[OF this, of "new_child xs" "[]"] e show ?thesis
    unfolding n by (simp add: new_child_def)
qed

text \<open>
  Claim C5. A Skip operator built from an expression that evaluates to a non-negative
  int64 \<open>n\<close>, pulled until it returns none over a child producing \<open>xs\<close>,
  yields exactly \<open>drop n xs\<close>; the records it deletes are \<open>take n xs\<close>, in
  order; no error is set. When the child has at most \<open>n\<close> records,
  \<open>drop n xs\<close> is the empty stream.
\<close>

theorem skip_consume_drops:
  assumes "p < next_free h" and "NewSkipOp h p ps = (op, h', err)"
    and "s = fst (AR_EXP_Evaluate h p ps)"
    and "SI_TYPE s = T_INT64" and "0 \<le> sint (SI_GET_NUMERIC s)"
    and "n = nat (sint (SI_GET_NUMERIC s))"
  shows "err = None \<and>
         (\<exists>op'. consume_all SkipConsume (op, new_child xs, []) [] =
                  Some (drop n xs, (op', \<lparr>stream = xs, pending = []\<rparr>, take n xs)))"
  using assms by (rule new_skip_consume_all)

theorem skip_consume_drops_witness:
  "0 < next_free skip_param_heap
   \<and> SI_TYPE (fst (AR_EXP_Evaluate skip_param_heap 0 (bind_n 2))) = T_INT64
   \<and> 0 \<le> sint (SI_GET_NUMERIC (fst (AR_EXP_Evaluate skip_param_heap 0 (bind_n 2))))
   \<and> snd (snd (NewSkipOp skip_param_heap 0 (bind_n 2))) = None
   \<and> map_option fst (consume_all SkipConsume
         (fst (NewSkipOp skip_param_heap 0 (bind_n 2)), new_child ''abcdef'', []) []) = Some ''cdef''
   \<and> map_option fst (consume_all SkipConsume
         (fst (NewSkipOp skip_param_heap 0 (bind_n 2)), new_child ''a'', []) []) = Some []"
proof -
  let ?h = skip_param_heap and ?ps = "bind_n 2"
  let ?r = "NewSkipOp ?h 0 ?ps"
  have a: "0 < next_free ?h" by (simp add: skip_param_heap_def)
  have b: "?r = (fst ?r, fst (snd ?r), snd (snd ?r))" by simp
  have c: "SI_TYPE (fst (AR_EXP_Evaluate ?h 0 ?ps)) = T_INT64"
    by (simp add: ev2 SI_TYPE_def SI_LongVal_def)
  have d: "0 \<le> sint (SI_GET_NUMERIC (fst (AR_EXP_Evaluate ?h 0 ?ps)))"
    by (simp add: ev2 SI_GET_NUMERIC_def SI_LongVal_def)
  have n: "(2::nat) = nat (sint (SI_GET_NUMERIC (fst (AR_EXP_Evaluate ?h 0 ?ps))))"
    by (simp add: ev2 SI_GET_NUMERIC_def SI_LongVal_def)
  show ?thesis
    using a c d skip_consume_drops [OF a b refl c d n, of "''abcdef''"]
      skip_consume_drops [OF a b refl c d n, of "''a''"]
    by auto
qed

lemma eval_cell_value:
  "cells h q = Some e \<Longrightarrow>
   fst (AR_EXP_Evaluate h q ps) = (case e of AR_EXP_CONSTANT v \<Rightarrow> v | AR_EXP_PARAM name \<Rightarrow> ps name)"
  by (simp add: AR_EXP_Evaluate_def split: AR_ExpNode.splits)

lemma skip_clone_of_stored:
  assumes se: "skip_exp op = Some q" and q: "q < next_free h1" and c: "cells h1 q = Some e"
    and s': "s' = (case e of AR_EXP_CONSTANT v \<Rightarrow> v | AR_EXP_PARAM name \<Rightarrow> ps' name)"
    and ty: "SI_TYPE s' = T_INT64" and nn: "0 \<le> sint (SI_GET_NUMERIC s')"
  shows "\<exists>op2 h2 q2. SkipClone h1 op ps' = Some (op2, h2, None)
           \<and> skip op2 = SI_GET_NUMERIC s'
           \<and> skip_exp op2 = Some q2 \<and> q2 \<noteq> q
           \<and> q < next_free h2 \<and> q2 < next_free h2
           \<and> cells h2 q = Some e \<and> cells h2 q2 = Some e
           \<and> (\<exists>op'. consume_all SkipConsume (op2, new_child xs, []) [] =
                  Some (drop (nat (sint (SI_GET_NUMERIC s'))) xs,
                        (op', \<lparr>stream = xs, pending = []\<rparr>, take (nat (sint (SI_GET_NUMERIC s'))) xs)))"
proof -
  let ?n = "next_free h1"
  obtain q' h1' where cl: "AR_EXP_Clone h1 q = (q', h1')" by (cases "AR_EXP_Clone h1 q")
  then have q': "q' = ?n" and nf: "next_free h1' = Suc ?n" and cq: "cells h1' q' = Some e"
    and cold: "cells h1' q = Some e"
    using c q by (auto simp: AR_EXP_Clone_def)
  obtain op2 h2 err2 where new: "NewSkipOp h1' q' ps' = (op2, h2, err2)"
    by (cases "NewSkipOp h1' q' ps'") auto
  have lt: "q' < next_free h1'" using q' nf by simp
  have ev: "fst (AR_EXP_Evaluate h1' q' ps') = s'"
    using eval_cell_value[OF cq] s' by simp
  have cloned: "SkipClone h1 op ps' = Some (op2, h2, err2)"
    using se cl new by (simp add: SkipClone_def)
  from new_skip_consume_all[OF lt new ev[symmetric] ty nn refl, of xs]
  have e2: "err2 = None" and run: "\<exists>op'. consume_all SkipConsume (op2, new_child xs, []) [] =
                  Some (drop (nat (sint (SI_GET_NUMERIC s'))) xs,
                        (op', \<lparr>stream = xs, pending = []\<rparr>, take (nat (sint (SI_GET_NUMERIC s'))) xs))"
    by simp_all
  have sk: "skip op2 = SI_GET_NUMERIC s'"
    using NewSkipOp_fields(1)[OF lt new] ev by (simp add: SI_GET_NUMERIC_def)
  have se2: "skip_exp op2 = Some (Suc ?n)" and c2: "cells h2 (Suc ?n) = Some e"
    and n2: "next_free h2 = Suc (Suc ?n)"
    using NewSkipOp_fields(3,5,6)[OF lt new] nf cq by simp_all
  have keep: "cells h2 q = Some e"
    using new cold q q' nf
    by (auto simp: NewSkipOp_def eval_skip_def AR_EXP_Clone_def AR_EXP_Evaluate_def AR_EXP_Free_def
             Let_def split: prod.splits option.splits AR_ExpNode.splits)
  show ?thesis
    using cloned e2 sk se2 c2 n2 keep run q by (intro exI[of _ op2] exI[of _ h2] exI[of _ "Suc ?n"]) simp
qed

text \<open>
  Claim C6. A Skip operator built from an expression cell holding \<open>e\<close> keeps its own
  copy of the unevaluated \<open>e\<close>. Cloning the operator under parameter bindings
  \<open>ps'\<close> clones that stored expression again: the clone's skip count is the value of
  \<open>e\<close> under \<open>ps'\<close> (for a parameter, the newly bound value), the clone holds a
  copy of \<open>e\<close> of its own in a different cell, and the stored expression of the
  original is still the unevaluated \<open>e\<close>. So a further clone of the original under
  bindings \<open>ps''\<close> resolves to the value under \<open>ps''\<close>, never to a constant left
  by an earlier evaluation. Each clone yields the child stream without that many first
  records.
\<close>

theorem skip_clone_rebinds_parameter:
  assumes "p < next_free h" and "cells h p = Some e" and "NewSkipOp h p ps = (op, h1, err)"
    and "s' = (case e of AR_EXP_CONSTANT v \<Rightarrow> v | AR_EXP_PARAM name \<Rightarrow> ps' name)"
    and "SI_TYPE s' = T_INT64" and "0 \<le> sint (SI_GET_NUMERIC s')"
    and "s'' = (case e of AR_EXP_CONSTANT v \<Rightarrow> v | AR_EXP_PARAM name \<Rightarrow> ps'' name)"
    and "SI_TYPE s'' = T_INT64" and "0 \<le> sint (SI_GET_NUMERIC s'')"
  shows "\<exists>q op2 h2 q2 op3 h3.
           skip_exp op = Some q \<and> cells h1 q = Some e
         \<and> SkipClone h1 op ps' = Some (op2, h2, None)
         \<and> skip op2 = SI_GET_NUMERIC s'
         \<and> skip_exp op2 = Some q2 \<and> q2 \<noteq> q \<and> cells h2 q2 = Some e \<and> cells h2 q = Some e
         \<and> map_option fst (consume_all SkipConsume (op2, new_child xs, []) [])
             = Some (drop (nat (sint (SI_GET_NUMERIC s'))) xs)
         \<and> SkipClone h2 op ps'' = Some (op3, h3, None)
         \<and> skip op3 = SI_GET_NUMERIC s''
         \<and> map_option fst (consume_all SkipConsume (op3, new_child xs, []) [])
             = Some (drop (nat (sint (SI_GET_NUMERIC s''))) xs)"
proof -
  let ?q = "next_free h"
  have se: "skip_exp op = Some ?q" and c1: "cells h1 ?q = Some e" and n1: "next_free h1 = Suc ?q"
    using NewSkipOp_fields(3,5,6)[OF assms(1,3)] assms(2) by simp_all
  have q1: "?q < next_free h1" using n1 by simp
  from skip_clone_of_stored[OF se q1 c1 assms(4,5,6), of xs]
  obtain op2 h2 q2 where
    a: "SkipClone h1 op ps' = Some (op2, h2, None)" "skip op2 = SI_GET_NUMERIC s'"
       "skip_exp op2 = Some q2" "q2 \<noteq> ?q" "?q < next_free h2" "cells h2 ?q = Some e" "cells h2 q2 = Some e"
    and ra: "\<exists>op'. consume_all SkipConsume (op2, new_child xs, []) [] =
                  Some (drop (nat (sint (SI_GET_NUMERIC s'))) xs,
                        (op', \<lparr>stream = xs, pending = []\<rparr>, take (nat (sint (SI_GET_NUMERIC s'))) xs))"
    by blast
  from skip_clone_of_stored[OF se a(5) a(6) assms(7,8,9), of xs]
  obtain op3 h3 where
    b: "SkipClone h2 op ps'' = Some (op3, h3, None)" "skip op3 = SI_GET_NUMERIC s''"
    and rb: "\<exists>op'. consume_all SkipConsume (op3, new_child xs, []) [] =
                  Some (drop (nat (sint (SI_GET_NUMERIC s''))) xs,
                        (op', \<lparr>stream = xs, pending = []\<rparr>, take (nat (sint (SI_GET_NUMERIC s''))) xs))"
    by blast
  have ra': "map_option fst (consume_all SkipConsume (op2, new_child xs, []) [])
             = Some (drop (nat (sint (SI_GET_NUMERIC s'))) xs)" using ra by auto
  have rb': "map_option fst (consume_all SkipConsume (op3, new_child xs, []) [])
             = Some (drop (nat (sint (SI_GET_NUMERIC s''))) xs)" using rb by auto
  show ?thesis
    using se c1 a b ra' rb'
    by (intro exI[of _ ?q] exI[of _ op2] exI[of _ h2] exI[of _ q2] exI[of _ op3] exI[of _ h3]) simp
qed

theorem skip_clone_rebinds_parameter_witness:
  "0 < next_free skip_param_heap
   \<and> cells skip_param_heap 0 = Some (AR_EXP_PARAM ''n'')
   \<and> SI_TYPE (bind_n 5 ''n'') = T_INT64 \<and> 0 \<le> sint (SI_GET_NUMERIC (bind_n 5 ''n''))
   \<and> SI_TYPE (bind_n 1 ''n'') = T_INT64 \<and> 0 \<le> sint (SI_GET_NUMERIC (bind_n 1 ''n''))
   \<and> map_option fst (consume_all SkipConsume
         (fst (NewSkipOp skip_param_heap 0 (bind_n 2)), new_child ''abcdef'', []) []) = Some ''cdef''
   \<and> map_option fst (consume_all SkipConsume
         (fst (the (SkipClone (fst (snd (NewSkipOp skip_param_heap 0 (bind_n 2))))
                              (fst (NewSkipOp skip_param_heap 0 (bind_n 2))) (bind_n 5))),
          new_child ''abcdef'', []) []) = Some ''f''
   \<and> map_option fst (consume_all SkipConsume
         (fst (the (SkipClone
                      (fst (snd (the (SkipClone (fst (snd (NewSkipOp skip_param_heap 0 (bind_n 2))))
                                        (fst (NewSkipOp skip_param_heap 0 (bind_n 2))) (bind_n 5)))))
                      (fst (NewSkipOp skip_param_heap 0 (bind_n 2))) (bind_n 1))),
          new_child ''abcdef'', []) []) = Some ''bcdef''"
proof -
  let ?h = skip_param_heap
  let ?r = "NewSkipOp ?h 0 (bind_n 2)"
  have a: "0 < next_free ?h" by (simp add: skip_param_heap_def)
  have e: "cells ?h 0 = Some (AR_EXP_PARAM ''n'')" by (simp add: skip_param_heap_def)
  have b: "?r = (fst ?r, fst (snd ?r), snd (snd ?r))" by simp
  have v: "(case AR_EXP_PARAM ''n'' of AR_EXP_CONSTANT v \<Rightarrow> v | AR_EXP_PARAM name \<Rightarrow> ps name) = ps ''n''" for ps :: params
    by simp
  have c5: "SI_TYPE (bind_n 5 ''n'') = T_INT64" by (simp add: bind_n_def SI_TYPE_def SI_LongVal_def)
  have d5: "0 \<le> sint (SI_GET_NUMERIC (bind_n 5 ''n''))" by (simp add: bind_n_def SI_GET_NUMERIC_def SI_LongVal_def)
  have n5: "nat (sint (SI_GET_NUMERIC (bind_n 5 ''n''))) = 5" by (simp add: bind_n_def SI_GET_NUMERIC_def SI_LongVal_def)
  have c1: "SI_TYPE (bind_n 1 ''n'') = T_INT64" by (simp add: bind_n_def SI_TYPE_def SI_LongVal_def)
  have d1: "0 \<le> sint (SI_GET_NUMERIC (bind_n 1 ''n''))" by (simp add: bind_n_def SI_GET_NUMERIC_def SI_LongVal_def)
  have n1: "nat (sint (SI_GET_NUMERIC (bind_n 1 ''n''))) = 1" by (simp add: bind_n_def SI_GET_NUMERIC_def SI_LongVal_def)
  have c2: "SI_TYPE (fst (AR_EXP_Evaluate ?h 0 (bind_n 2))) = T_INT64"
    by (simp add: ev2 SI_TYPE_def SI_LongVal_def)
  have d2: "0 \<le> sint (SI_GET_NUMERIC (fst (AR_EXP_Evaluate ?h 0 (bind_n 2))))"
    by (simp add: ev2 SI_GET_NUMERIC_def SI_LongVal_def)
  have n2: "(2::nat) = nat (sint (SI_GET_NUMERIC (fst (AR_EXP_Evaluate ?h 0 (bind_n 2)))))"
    by (simp add: ev2 SI_GET_NUMERIC_def SI_LongVal_def)
  have first: "map_option fst (consume_all SkipConsume (fst ?r, new_child ''abcdef'', []) []) = Some ''cdef''"
    using new_skip_consume_all [OF a b refl c2 d2 n2, of "''abcdef''"] by auto
  show ?thesis
    using a e c5 d5 c1 d1 first
      skip_clone_rebinds_parameter [OF a e b v[of "bind_n 5", symmetric] c5 d5
          v[of "bind_n 1", symmetric] c1 d1, of "''abcdef''"]
    unfolding n5 n1 by auto
qed

section \<open>Properties of the index populators\<close>

lemma node_batch_loop_closed:
  assumes "A it = Some M" "k \<le> bs"
  shows "node_batch_loop bs (k, it, id', idx) =
     (min bs (k + length (rest it)),
      it\<lparr>rest := drop (bs - k) (rest it)\<rparr>,
      (if take (bs - k) (rest it) = [] then id' else Some (fst (last (take (bs - k) (rest it))))),
      idx\<lparr>indexed_nodes := indexed_nodes idx @ map fst (take (bs - k) (rest it))\<rparr>)"
  using assms
proof (induction "rest it" arbitrary: k it id' idx)
  case Nil
  then show ?case
    by (subst node_batch_loop.simps) (simp add: RG_MatrixTupleIter_next_def)
next
  case (Cons t ts)
  have r: "rest it = t # ts" using Cons.hyps(2) by simp
  show ?case
  proof (cases "k < bs")
    case False
    then have "k = bs" using Cons.prems by simp
    then show ?thesis by (subst node_batch_loop.simps) simp
  next
    case True
    let ?it' = "it\<lparr>rest := ts\<rparr>"
    have step: "node_batch_loop bs (k, it, id', idx) =
        node_batch_loop bs (k + 1, ?it', Some (fst t), Index_IndexNode idx (fst t))"
      using True r Cons.prems(1) by (subst node_batch_loop.simps) (simp add: RG_MatrixTupleIter_next_def)
    have IH: "node_batch_loop bs (k + 1, ?it', Some (fst t), Index_IndexNode idx (fst t)) =
     (min bs (k + 1 + length (rest ?it')),
      ?it'\<lparr>rest := drop (bs - (k + 1)) (rest ?it')\<rparr>,
      (if take (bs - (k + 1)) (rest ?it') = [] then Some (fst t) else Some (fst (last (take (bs - (k + 1)) (rest ?it'))))),
      (Index_IndexNode idx (fst t))\<lparr>indexed_nodes := indexed_nodes (Index_IndexNode idx (fst t)) @ map fst (take (bs - (k + 1)) (rest ?it'))\<rparr>)"
      by (rule Cons.hyps(1)) (use True Cons.prems in simp_all)
    obtain d where d: "bs - k = Suc d" using True by (cases "bs - k") auto
    then have d': "bs - (k + 1) = d" by simp
    show ?thesis unfolding step IH d' using r d
      by (simp add: Index_IndexNode_def)
  qed
qed

lemma rows_le_last:
  "sorted_wrt (\<lambda>s t. fst s \<le> (fst t :: nat)) xs \<Longrightarrow> x \<in> set xs \<Longrightarrow> fst x \<le> fst (last xs)"
  by (induction xs) auto

lemma jump_after_batch:
  fixes T :: "'v tuple list"
  assumes srt: "sorted_wrt (\<lambda>s t. fst s \<le> fst t) T" and bs: "0 < bs"
    and full: "bs \<le> length (dropWhile (\<lambda>t. fst t < r) T)"
  shows "dropWhile (\<lambda>t. fst t < fst (last (take bs (dropWhile (\<lambda>t. fst t < r) T))) + 1) T
         = dropWhile (\<lambda>t. fst t < fst (last (take bs (dropWhile (\<lambda>t. fst t < r) T))) + 1)
             (drop bs (dropWhile (\<lambda>t. fst t < r) T))"
proof -
  let ?R = "dropWhile (\<lambda>t. fst t < r) T"
  let ?B = "take bs ?R"
  let ?i = "fst (last ?B)"
  have lB: "length ?B = bs" using full by simp
  have ne: "?B \<noteq> []"
  proof
    assume "?B = []"
    then have "length ?B = 0" by (simp only: list.size)
    then show False using lB bs by simp
  qed
  have T: "T = (takeWhile (\<lambda>t. fst t < r) T @ ?B) @ drop bs ?R" by simp
  have Rne: "?R \<noteq> []"
  proof
    assume "?R = []"
    then have "?B = []" by (simp only: take_Nil)
    then show False using ne by simp
  qed
  have hdR: "r \<le> fst (hd ?R)" using Rne hd_dropWhile[of "\<lambda>t. fst t < r" T] by auto
  have sB: "sorted_wrt (\<lambda>s t. fst s \<le> fst t) ?B"
    using srt by simp
  have inB: "fst t \<le> ?i" if "t \<in> set ?B" for t
    using rows_le_last[OF sB that] .
  have "hd ?B = hd ?R" using bs by (simp add: hd_take)
  then have "hd ?R \<in> set ?B" using ne hd_in_set[of ?B] by simp
  then have ri: "r \<le> ?i" using inB[of "hd ?R"] hdR by simp
  have pre: "fst t < ?i + 1" if "t \<in> set (takeWhile (\<lambda>t. fst t < r) T @ ?B)" for t
  proof -
    from that consider "t \<in> set (takeWhile (\<lambda>t. fst t < r) T)" | "t \<in> set ?B" by auto
    then show ?thesis
    proof cases
      case 1
      then have "fst t < r" using set_takeWhileD[of t "\<lambda>t. fst t < r" T] by simp
      then show ?thesis using ri by simp
    next
      case 2
      then show ?thesis using inB[of t] by simp
    qed
  qed
  show ?thesis
    by (subst T, subst dropWhile_append2) (use pre in auto)
qed

lemma node_loop_windows:
  assumes bs: "0 < bs" and m: "Graph_GetLabelMatrix g l = Some m"
    and srt: "sorted_wrt (\<lambda>s t. fst s \<le> fst t) (tuples m)"
  shows "state idx = IDX_POPULATING \<Longrightarrow> label_id idx = l \<Longrightarrow>
    \<exists>idx' it' W. node_populate_loop bs g idx r it log0 = Some (idx', it', log0 @ W)
       \<and> W \<noteq> [] \<and> fst (hd W) = r
       \<and> (\<forall>w\<in>set W. length (snd w) \<le> bs)
       \<and> length (snd (last W)) < bs
       \<and> (\<forall>k. Suc k < length W \<longrightarrow>
              length (snd (W ! k)) = bs \<and> fst (W ! Suc k) = last (snd (W ! k)) + 1)
       \<and> indexed_nodes idx' = indexed_nodes idx @ concat (map snd W)
       \<and> state idx' = IDX_POPULATING"
proof (induction "length (dropWhile (\<lambda>t. fst t < r) (tuples m))" arbitrary: r idx it log0 rule: less_induct)
  case less
  let ?R = "dropWhile (\<lambda>t. fst t < r) (tuples m)"
  let ?it1 = "RG_MatrixTupleIter_jump_to_row (RG_MatrixTupleIter_attach it m) r"
  have it1: "A ?it1 = Some m" "rest ?it1 = ?R"
    by (simp_all add: RG_MatrixTupleIter_jump_to_row_def RG_MatrixTupleIter_attach_def)
  let ?ids = "map fst (take bs ?R)"
  let ?idx' = "idx\<lparr>indexed_nodes := indexed_nodes idx @ ?ids\<rparr>"
  let ?it2 = "?it1\<lparr>rest := drop bs ?R\<rparr>"
  let ?id' = "if take bs ?R = [] then None else Some (fst (last (take bs ?R)))"
  have batch: "node_batch_loop bs (0, ?it1, None, idx) = (min bs (length ?R), ?it2, ?id', ?idx')"
    using node_batch_loop_closed[OF it1(1), of 0 bs None idx] it1(2) by simp
  have st': "state ?idx' = IDX_POPULATING" "label_id ?idx' = l" using less.prems by simp_all
  show ?case
  proof (cases "length ?R < bs")
    case True
    have "node_populate_loop bs g idx r it log0 = Some (?idx', ?it2, log0 @ [(r, ?ids)])"
      using True less.prems m batch by (subst node_populate_loop.simps) simp
    moreover have "take bs ?R = ?R" using True by simp
    ultimately show ?thesis using True st' by (intro exI[of _ ?idx'] exI[of _ ?it2] exI[of _ "[(r, ?ids)]"]) simp
  next
    case False
    then have full: "bs \<le> length ?R" by simp
    have ne: "take bs ?R \<noteq> []"
    proof
      assume "take bs ?R = []"
      then have "length (take bs ?R) = 0" by (simp only: list.size)
      then show False using full bs by simp
    qed
    let ?i = "fst (last (take bs ?R))"
    let ?R' = "dropWhile (\<lambda>t. fst t < ?i + 1) (tuples m)"
    have R': "?R' = dropWhile (\<lambda>t. fst t < ?i + 1) (drop bs ?R)"
      by (rule jump_after_batch[OF srt bs full])
    have "length ?R' \<le> length (drop bs ?R)" unfolding R' by (rule length_dropWhile_le)
    then have dec: "length ?R' < length ?R" using full bs by simp
    have batch2: "node_batch_loop bs (0, ?it1, None, idx) = (bs, ?it2, Some ?i, ?idx')"
      unfolding batch using full ne by (simp only: min.absorb1 if_False)
    have unfold: "node_populate_loop bs g idx r it log0 =
          node_populate_loop bs g ?idx' (?i + 1) (RG_MatrixTupleIter_detach ?it2) (log0 @ [(r, ?ids)])"
      using less.prems m by (subst node_populate_loop.simps) (simp add: batch2)
    from less.hyps[OF dec st', of "RG_MatrixTupleIter_detach ?it2" "log0 @ [(r, ?ids)]"]
    obtain idx'' it'' W where
      run: "node_populate_loop bs g ?idx' (?i + 1) (RG_MatrixTupleIter_detach ?it2) (log0 @ [(r, ?ids)])
              = Some (idx'', it'', (log0 @ [(r, ?ids)]) @ W)"
      and W: "W \<noteq> []" "fst (hd W) = ?i + 1" "\<forall>w\<in>set W. length (snd w) \<le> bs"
        "length (snd (last W)) < bs"
        "\<forall>k. Suc k < length W \<longrightarrow> length (snd (W ! k)) = bs \<and> fst (W ! Suc k) = last (snd (W ! k)) + 1"
      and ix: "indexed_nodes idx'' = indexed_nodes ?idx' @ concat (map snd W)"
      and st: "state idx'' = IDX_POPULATING"
      by blast
    let ?W = "(r, ?ids) # W"
    have lids: "length ?ids = bs" using full by simp
    have lastids: "last ?ids = ?i" using ne by (simp add: last_map)
    have chain: "\<forall>k. Suc k < length ?W \<longrightarrow> length (snd (?W ! k)) = bs \<and> fst (?W ! Suc k) = last (snd (?W ! k)) + 1"
    proof (intro allI impI)
      fix k assume k: "Suc k < length ?W"
      show "length (snd (?W ! k)) = bs \<and> fst (?W ! Suc k) = last (snd (?W ! k)) + 1"
      proof (cases k)
        case 0
        then show ?thesis using lids lastids W(1,2) by (simp add: hd_conv_nth)
      next
        case (Suc j)
        then show ?thesis using W(5) k by simp
      qed
    qed
    have "node_populate_loop bs g idx r it log0 = Some (idx'', it'', log0 @ ?W)"
      using unfold run by simp
    moreover have "indexed_nodes idx'' = indexed_nodes idx @ concat (map snd ?W)"
      using ix by simp
    moreover have "\<forall>w\<in>set ?W. length (snd w) \<le> bs" using W(3) lids by simp
    moreover have "length (snd (last ?W)) < bs" using W(1,4) by simp
    ultimately show ?thesis using chain st
      by (intro exI[of _ idx''] exI[of _ it''] exI[of _ ?W]) simp
  qed
qed

lemma row_major_sorted_rows:
  "row_major M \<Longrightarrow> sorted_wrt (\<lambda>s t. fst s \<le> fst t) (tuples M)"
  unfolding row_major_def
  by (erule sorted_wrt_mono_rel[rotated]) (auto simp: position_def less_prod_def)

lemma example_node_run:
  "map_option snd (Index_PopulateNodeIndex 2 example_node_index example_label_graph)
     = Some [(0, [0, 1]), (2, [2, 3]), (4, [4])]"
  by (simp add: Index_PopulateNodeIndex_def node_populate_loop.simps example_node_index_def
      example_label_graph_def example_label_matrix_def Graph_GetLabelMatrix_def
      RG_MatrixTupleIter_attach_def RG_MatrixTupleIter_jump_to_row_def RG_MatrixTupleIter_detach_def
      node_batch_loop.simps RG_MatrixTupleIter_next_def Index_IndexNode_def detached_iter_def)

text \<open>
  Claim C3. For every positive batch size \<open>bs\<close> (the source's is
  \<open>batch_size = 1000\<close>), the node populator over a row-major label matrix returns,
  and its windows are as follows: the first starts at row 0; no window indexes more than
  \<open>bs\<close> nodes; the last window, after which the loop exits, indexes fewer than
  \<open>bs\<close>; every earlier window indexes exactly \<open>bs\<close> nodes and is followed
  by a window that resumes at the row after the last node id it indexed.
\<close>

theorem node_populator_batches:
  assumes "0 < bs" and "state idx = IDX_POPULATING"
    and "Graph_GetLabelMatrix g (label_id idx) = Some m" and "row_major m"
  shows "\<exists>idx' log. Index_PopulateNodeIndex bs idx g = Some (idx', log)
       \<and> log \<noteq> [] \<and> fst (hd log) = 0
       \<and> (\<forall>w\<in>set log. length (snd w) \<le> bs)
       \<and> length (snd (last log)) < bs
       \<and> (\<forall>k. Suc k < length log \<longrightarrow>
              length (snd (log ! k)) = bs \<and> fst (log ! Suc k) = last (snd (log ! k)) + 1)"
proof -
  from node_loop_windows[OF assms(1,3) row_major_sorted_rows[OF assms(4)] assms(2) refl,
      of 0 detached_iter "[]"]
  obtain idx' it' W where
    "node_populate_loop bs g idx 0 detached_iter [] = Some (idx', it', W)"
    "W \<noteq> []" "fst (hd W) = 0" "\<forall>w\<in>set W. length (snd w) \<le> bs" "length (snd (last W)) < bs"
    "\<forall>k. Suc k < length W \<longrightarrow> length (snd (W ! k)) = bs \<and> fst (W ! Suc k) = last (snd (W ! k)) + 1"
    by auto
  then show ?thesis
    by (intro exI[of _ idx'] exI[of _ W]) (simp add: Index_PopulateNodeIndex_def)
qed

theorem node_populator_batches_witness:
  "(0::nat) < 2 \<and> state example_node_index = IDX_POPULATING
   \<and> Graph_GetLabelMatrix example_label_graph (label_id example_node_index) = Some example_label_matrix
   \<and> row_major example_label_matrix
   \<and> map_option snd (Index_PopulateNodeIndex 2 example_node_index example_label_graph)
        = Some [(0, [0, 1]), (2, [2, 3]), (4, [4])]
   \<and> (\<exists>idx' log. Index_PopulateNodeIndex 2 example_node_index example_label_graph = Some (idx', log)
        \<and> Suc 0 < length log \<and> length (snd (log ! 0)) = 2 \<and> fst (log ! Suc 0) = last (snd (log ! 0)) + 1
        \<and> length (snd (last log)) < 2)"
proof -
  have a: "(0::nat) < 2" by simp
  have b: "state example_node_index = IDX_POPULATING" by (simp add: example_node_index_def)
  have c: "Graph_GetLabelMatrix example_label_graph (label_id example_node_index) = Some example_label_matrix"
    by (simp add: Graph_GetLabelMatrix_def example_label_graph_def example_node_index_def)
  have d: "row_major example_label_matrix"
    by (simp add: row_major_def example_label_matrix_def position_def less_prod_def)
  show ?thesis
    using a b c d example_node_run node_populator_batches [OF a b c d]
    by fastforce
qed

text \<open>
  Claim C1, at a failing input. Relation 0 holds edge 0 from node 0 to node 1, relation 1
  holds edge 1 from node 1 to node 2. Populating an edge index over relation 1 hands
  \<^verbatim>\<open>Index_IndexEdge\<close> edge id 0 with the endpoints of edge 1, once; edge 1, the only
  edge of the indexed relation, is never indexed.
\<close>

theorem edge_populator_misses_edge:
  "map_option indexed_edges (Index_Populate example_edge_index example_two_relations)
     = Some [\<lparr>entity_id = 0, srcNodeID = 1, destNodeID = 2, relationID = 1\<rparr>]"
  by (simp add: Index_Populate_def example_edge_index_def example_two_relations_def
      Index_PopulateEdgeIndex_def edge_populate_loop.simps Graph_GetRelationMatrix_def
      RG_MatrixTupleIter_attach_def RG_MatrixTupleIter_jump_to_row_def skip_indexed_loop.simps
      RG_MatrixTupleIter_next_def edge_batch_loop.simps index_slot_def batch_size_def
      Index_IndexEdge_def Graph_GetEdge_def Index_Enable_def detached_iter_def)

text \<open>
  Claim C2, at a failing input. The indexed relation has the entries (0,0) with edge 0,
  (0,1) with edge 1 and (2,1) with the edges 2 and 3. In the first batch the skip loop
  passes over the entry at (0,0), which was never indexed, and stops at (0,1); the batch
  then indexes that entry with the edge id left in \<open>edge_id\<close>, 0, not with its own
  stored value 1.
\<close>

theorem edge_populator_first_batch:
  "skip_indexed_loop 0 0
     (RG_MatrixTupleIter_jump_to_row
        (RG_MatrixTupleIter_attach detached_iter (relations example_self_loop ! 1)) 0, 0, 0)
     = (GrB_SUCCESS,
        \<lparr>A = Some (relations example_self_loop ! 1), rest = [(2, 1, Multi [2, 3])]\<rparr>, 0, 1)
   \<and> map_option indexed_edges (Index_PopulateEdgeIndex batch_size example_edge_index example_self_loop)
     = Some [\<lparr>entity_id = 0, srcNodeID = 0, destNodeID = 1, relationID = 1\<rparr>,
             \<lparr>entity_id = 2, srcNodeID = 2, destNodeID = 1, relationID = 1\<rparr>,
             \<lparr>entity_id = 3, srcNodeID = 2, destNodeID = 1, relationID = 1\<rparr>]"
  by (simp add: example_edge_index_def example_self_loop_def
      Index_PopulateEdgeIndex_def edge_populate_loop.simps Graph_GetRelationMatrix_def
      RG_MatrixTupleIter_attach_def RG_MatrixTupleIter_jump_to_row_def skip_indexed_loop.simps
      RG_MatrixTupleIter_next_def edge_batch_loop.simps index_slot_def batch_size_def
      Index_IndexEdge_def Graph_GetEdge_def detached_iter_def)

section \<open>Properties of NodeByLabelScan\<close>

lemma tighten_ge_0:
  "UnsignedRange_TightenRange rng OP_GE 0 = (if valid rng then rng\<lparr>valid := UnsignedRange_IsValid rng\<rparr> else rng)"
  by (simp add: UnsignedRange_TightenRange_def Let_def)

lemma tighten_idem:
  "UnsignedRange_TightenRange (UnsignedRange_TightenRange rng op v) op v = UnsignedRange_TightenRange rng op v"
  by (cases op) (auto simp: UnsignedRange_TightenRange_def UnsignedRange_IsValid_def Let_def)

lemma tighten_valid_flag:
  "valid (UnsignedRange_TightenRange rng op v) = UnsignedRange_IsValid (UnsignedRange_TightenRange rng op v)"
  by (cases op) (auto simp: UnsignedRange_TightenRange_def UnsignedRange_IsValid_def Let_def)

lemma word_of_nat_less: "x < 2 ^ 64 \<Longrightarrow> y < 2 ^ 64 \<Longrightarrow> ((of_nat x :: 64 word) < of_nat y) = (x < y)"
  by (simp add: word_less_nat_alt unat_of_nat)

lemma word_of_nat_le: "x < 2 ^ 64 \<Longrightarrow> y < 2 ^ 64 \<Longrightarrow> ((of_nat x :: 64 word) \<le> of_nat y) = (x \<le> y)"
  by (simp add: word_le_nat_alt unat_of_nat)

lemma unat_pred_gt: "(a::64 word) < c \<Longrightarrow> unat (c - 1) = unat c - 1"
  by unat_arith

lemma tightened_cases:
  assumes v: "UnsignedRange_IsValid (tightened rng nr)"
  shows "valid rng \<and> UnsignedRange_IsValid rng \<and>
         tightened rng nr = (if range_max rng \<ge> of_nat nr
                             then rng\<lparr>include_max := False, range_max := of_nat nr\<rparr> else rng)"
proof -
  have 1: "valid rng"
    using v by (auto simp: tightened_def tighten_ge_0 UnsignedRange_TightenRange_def UnsignedRange_IsValid_def split: if_splits)
  have 2: "UnsignedRange_IsValid rng"
  proof (rule ccontr)
    assume n: "\<not> UnsignedRange_IsValid rng"
    then have "tightened rng nr = rng\<lparr>valid := False\<rparr>"
      using 1 by (simp add: tightened_def tighten_ge_0 UnsignedRange_TightenRange_def)
    then show False using v by (simp add: UnsignedRange_IsValid_def)
  qed
  have 3: "UnsignedRange_TightenRange rng OP_GE 0 = rng"
    using 1 2 by (simp add: tighten_ge_0)
  have "tightened rng nr = (if range_max rng \<ge> of_nat nr
                             then rng\<lparr>include_max := False, range_max := of_nat nr\<rparr> else rng)"
    using v 1 unfolding tightened_def 3
    by (auto simp: UnsignedRange_TightenRange_def Let_def UnsignedRange_IsValid_def split: if_splits)
  then show ?thesis using 1 2 by simp
qed

lemma tightened_bounds:
  assumes v: "UnsignedRange_IsValid (tightened rng nr)" and nr: "nr < 2 ^ 64" and x: "x < nr"
  shows "(unat (if include_min (tightened rng nr) then range_min (tightened rng nr) else range_min (tightened rng nr) + 1) \<le> x
          \<and> x \<le> unat (if include_max (tightened rng nr) then range_max (tightened rng nr) else range_max (tightened rng nr) - 1))
         = in_range rng (of_nat x)"
proof -
  have xw: "unat (of_nat x :: 64 word) = x" using x nr by (simp add: unat_of_nat)
  have nw: "unat (of_nat nr :: 64 word) = nr" using nr by (simp add: unat_of_nat)
  note tc = tightened_cases[OF v]
  let ?a = "range_min rng" and ?b = "range_max rng" and ?N = "of_nat nr :: 64 word"
  have lo: "(unat (if include_min rng then ?a else ?a + 1) \<le> x)
            = (if include_min rng then ?a \<le> of_nat x else ?a < of_nat x)" if "\<not> include_min rng \<longrightarrow> ?a < c" for c
  proof (cases "include_min rng")
    case True
    then show ?thesis by (simp add: word_le_nat_alt xw)
  next
    case False
    then have "unat (?a + 1) = Suc (unat ?a)" using that unat_succ_lt[of ?a c] by simp
    then show ?thesis using False by (simp add: word_less_nat_alt xw Suc_le_eq)
  qed
  show ?thesis
  proof (cases "?b \<ge> ?N")
    case True
    then have t: "tightened rng nr = rng\<lparr>include_max := False, range_max := ?N\<rparr>" using tc by simp
    have aN: "?a < ?N" using v unfolding t by (simp add: UnsignedRange_IsValid_def split: if_splits)
    have hi: "unat (?N - 1) = nr - 1" using unat_pred_gt[OF aN] nw by simp
    have xb: "of_nat x < ?N" using x xw nw by (simp add: word_less_nat_alt)
    then have xb': "of_nat x < ?b" "of_nat x \<le> ?b" using True by auto
    show ?thesis unfolding t in_range_def using lo[of ?N] aN hi x xb' by auto
  next
    case False
    then have t: "tightened rng nr = rng" using tc by simp
    have ab: "\<not> (include_min rng \<and> include_max rng) \<longrightarrow> ?a < ?b"
      using tc by (auto simp: UnsignedRange_IsValid_def split: if_splits)
    have hi: "(x \<le> unat (if include_max rng then ?b else ?b - 1))
            = (if include_max rng then of_nat x \<le> ?b else of_nat x < ?b)"
    proof (cases "include_max rng")
      case True
      then show ?thesis by (simp add: word_le_nat_alt xw)
    next
      case False
      then have "?a < ?b" using ab by simp
      then have "unat (?b - 1) = unat ?b - 1" "0 < unat ?b"
        using unat_pred_gt[of ?a ?b] by (simp_all add: word_less_nat_alt)
      then show ?thesis using False by (auto simp: word_less_nat_alt xw)
    qed
    have lo': "(unat (if include_min rng then ?a else ?a + 1) \<le> x)
            = (if include_min rng then ?a \<le> of_nat x else ?a < of_nat x)"
    proof (cases "include_min rng")
      case True
      then show ?thesis using lo[of 0] by simp
    next
      case False
      then show ?thesis using lo[of ?b] ab by simp
    qed
    show ?thesis unfolding t in_range_def using lo' hi by simp
  qed
qed

lemma ConstructIterator_eq:
  "ConstructIterator qc op =
     (let L = scan_label_matrix qc (scan_label_id (nctx op)); R = tightened (id_range op) (nrows L)
      in if \<not> UnsignedRange_IsValid R then (GrB_DIMENSION_MISMATCH, op\<lparr>id_range := R\<rparr>)
         else (GrB_SUCCESS,
               op\<lparr>id_range := R,
                  iter := RG_MatrixTupleIter_AttachRange (iter op) L
                            (unat (if include_min R then range_min R else range_min R + 1))
                            (unat (if include_max R then range_max R else range_max R - 1))\<rparr>))"
  by (simp add: ConstructIterator_def tightened_def Let_def)

lemma attach_range_rest:
  assumes "UnsignedRange_IsValid (tightened rng (nrows L))" "nrows L < 2 ^ 64"
    and "\<forall>t\<in>set (tuples L). fst t < nrows L"
  shows "rest (RG_MatrixTupleIter_AttachRange it L
            (unat (if include_min (tightened rng (nrows L)) then range_min (tightened rng (nrows L)) else range_min (tightened rng (nrows L)) + 1))
            (unat (if include_max (tightened rng (nrows L)) then range_max (tightened rng (nrows L)) else range_max (tightened rng (nrows L)) - 1)))
         = filter (\<lambda>t. in_range rng (of_nat (fst t))) (tuples L)"
proof -
  let ?R = "tightened rng (nrows L)"
  let ?lo = "unat (if include_min ?R then range_min ?R else range_min ?R + 1)"
  let ?hi = "unat (if include_max ?R then range_max ?R else range_max ?R - 1)"
  have "(?lo \<le> fst t \<and> fst t \<le> ?hi) = in_range rng (of_nat (fst t))" if "t \<in> set (tuples L)" for t
  proof -
    have "fst t < nrows L" using assms(3) that by blast
    then show ?thesis by (rule tightened_bounds[OF assms(1,2)])
  qed
  then have "filter (\<lambda>t. ?lo \<le> fst t \<and> fst t \<le> ?hi) (tuples L)
           = filter (\<lambda>t. in_range rng (of_nat (fst t))) (tuples L)"
    by (intro filter_cong refl) blast
  then show ?thesis by (simp only: RG_MatrixTupleIter_AttachRange_def RG_MatrixTupleIter.simps)
qed

lemma example_scan_label: "scan_label_id (nctx (example_scan cs)) = 0"
  by (simp add: example_scan_def NodeByLabelScanOp_SetIDRange_def NewNodeByLabelScanOp_def
      update_label_id_def example_query_ctx_def)

lemma example_scan_matrix:
  "scan_label_matrix example_query_ctx (scan_label_id (nctx (example_scan cs))) = example_even_labels"
  by (simp add: example_scan_label scan_label_matrix_def example_query_ctx_def)

lemma example_scan_init:
  "op_consume (NodeByLabelScanInit example_query_ctx (example_scan ([] :: nat child_op list))) = Fn_Consume
   \<and> rest (iter (NodeByLabelScanInit example_query_ctx (example_scan ([] :: nat child_op list))))
       = [(0, 0, True), (2, 2, True), (4, 4, True)]"
  by (simp add: NodeByLabelScanInit_def ConstructIterator_def Let_def example_scan_def
      NodeByLabelScanOp_SetIDRange_def NewNodeByLabelScanOp_def update_label_id_def
      example_query_ctx_def scan_label_matrix_def example_even_labels_def
      UnsignedRange_TightenRange_def UnsignedRange_New_def UnsignedRange_IsValid_def
      RG_MatrixTupleIter_AttachRange_def GRAPH_UNKNOWN_LABEL_def)

text \<open>
  Claim C8. On init of NodeByLabelScan: with a child the consume function is the
  child-driven one; without a child and with an unknown label it is the no-op; otherwise
  the configured id range is tightened to the rows of the label matrix, and when the
  tightened range is invalid the consume function is the no-op, else it stays the
  standalone one with the iterator attached to the label matrix and about to yield
  exactly the entries whose row lies in the configured range.
\<close>

theorem scan_init_consume:
  fixes op :: "'r NodeByLabelScan"
  assumes "nrows (scan_label_matrix qc (scan_label_id (nctx op))) < 2 ^ 64"
    and "\<forall>t\<in>set (tuples (scan_label_matrix qc (scan_label_id (nctx op)))).
           fst t < nrows (scan_label_matrix qc (scan_label_id (nctx op)))"
  shows "(children op \<noteq> [] \<longrightarrow> op_consume (NodeByLabelScanInit qc op) = Fn_ConsumeFromChild)
     \<and> (children op = [] \<and> scan_label_id (nctx op) = GRAPH_UNKNOWN_LABEL \<longrightarrow>
          op_consume (NodeByLabelScanInit qc op) = Fn_NoOp)
     \<and> (children op = [] \<and> scan_label_id (nctx op) \<noteq> GRAPH_UNKNOWN_LABEL \<longrightarrow>
          id_range (NodeByLabelScanInit qc op)
            = tightened (id_range op) (nrows (scan_label_matrix qc (scan_label_id (nctx op)))) \<and>
          (if UnsignedRange_IsValid (id_range (NodeByLabelScanInit qc op))
           then op_consume (NodeByLabelScanInit qc op) = Fn_Consume
              \<and> A (iter (NodeByLabelScanInit qc op)) = Some (scan_label_matrix qc (scan_label_id (nctx op)))
              \<and> rest (iter (NodeByLabelScanInit qc op))
                  = filter (\<lambda>t. in_range (id_range op) (of_nat (fst t)))
                      (tuples (scan_label_matrix qc (scan_label_id (nctx op))))
           else op_consume (NodeByLabelScanInit qc op) = Fn_NoOp))"
proof -
  let ?L = "scan_label_matrix qc (scan_label_id (nctx op))"
  let ?R = "tightened (id_range op) (nrows ?L)"
  have ci: "ConstructIterator qc (op\<lparr>op_consume := Fn_Consume\<rparr>) =
     (if \<not> UnsignedRange_IsValid ?R then (GrB_DIMENSION_MISMATCH, op\<lparr>op_consume := Fn_Consume, id_range := ?R\<rparr>)
         else (GrB_SUCCESS,
               op\<lparr>op_consume := Fn_Consume, id_range := ?R,
                  iter := RG_MatrixTupleIter_AttachRange (iter op) ?L
                            (unat (if include_min ?R then range_min ?R else range_min ?R + 1))
                            (unat (if include_max ?R then range_max ?R else range_max ?R - 1))\<rparr>))"
    by (simp add: ConstructIterator_eq Let_def)
  show ?thesis
  proof (cases "UnsignedRange_IsValid ?R")
    case True
    note ar = attach_range_rest[OF True assms(1,2)]
    show ?thesis using True ar
      by (simp add: NodeByLabelScanInit_def Let_def ci) (simp add: RG_MatrixTupleIter_AttachRange_def)
  next
    case False
    then show ?thesis by (simp add: NodeByLabelScanInit_def Let_def ci)
  qed
qed

theorem scan_init_consume_witness:
  "nrows (scan_label_matrix example_query_ctx (scan_label_id (nctx (example_scan ([] :: nat child_op list))))) < 2 ^ 64
   \<and> list_all (\<lambda>t. fst t < nrows (scan_label_matrix example_query_ctx (scan_label_id (nctx (example_scan ([] :: nat child_op list))))))
         (tuples (scan_label_matrix example_query_ctx (scan_label_id (nctx (example_scan ([] :: nat child_op list))))))
   \<and> children (example_scan ([] :: nat child_op list)) = []
   \<and> scan_label_id (nctx (example_scan ([] :: nat child_op list))) \<noteq> GRAPH_UNKNOWN_LABEL
   \<and> UnsignedRange_IsValid (id_range (NodeByLabelScanInit example_query_ctx (example_scan ([] :: nat child_op list))))
   \<and> op_consume (NodeByLabelScanInit example_query_ctx (example_scan ([] :: nat child_op list))) = Fn_Consume
   \<and> rest (iter (NodeByLabelScanInit example_query_ctx (example_scan ([] :: nat child_op list))))
       = [(0, 0, True), (2, 2, True), (4, 4, True)]
   \<and> op_consume (NodeByLabelScanInit example_query_ctx (example_scan [new_child [5 :: nat]])) = Fn_ConsumeFromChild"
proof -
  let ?op = "example_scan ([] :: nat child_op list)"
  have a: "nrows (scan_label_matrix example_query_ctx (scan_label_id (nctx ?op))) < 2 ^ 64"
    by (simp add: example_scan_matrix example_even_labels_def)
  have b: "\<forall>t\<in>set (tuples (scan_label_matrix example_query_ctx (scan_label_id (nctx ?op)))).
         fst t < nrows (scan_label_matrix example_query_ctx (scan_label_id (nctx ?op)))"
    by (simp add: example_scan_matrix example_even_labels_def)
  have a': "nrows (scan_label_matrix example_query_ctx (scan_label_id (nctx (example_scan [new_child [5 :: nat]])))) < 2 ^ 64"
    by (simp add: example_scan_matrix example_even_labels_def)
  have b': "\<forall>t\<in>set (tuples (scan_label_matrix example_query_ctx (scan_label_id (nctx (example_scan [new_child [5 :: nat]]))))).
         fst t < nrows (scan_label_matrix example_query_ctx (scan_label_id (nctx (example_scan [new_child [5 :: nat]]))))"
    by (simp add: example_scan_matrix example_even_labels_def)
  have c: "children ?op = []"
    by (simp add: example_scan_def NodeByLabelScanOp_SetIDRange_def NewNodeByLabelScanOp_def
        update_label_id_def example_query_ctx_def)
  have c': "children (example_scan [new_child [5 :: nat]]) \<noteq> []"
    by (simp add: example_scan_def NodeByLabelScanOp_SetIDRange_def NewNodeByLabelScanOp_def
        update_label_id_def example_query_ctx_def)
  have d: "scan_label_id (nctx ?op) \<noteq> GRAPH_UNKNOWN_LABEL"
    by (simp add: example_scan_label GRAPH_UNKNOWN_LABEL_def)
  have e: "UnsignedRange_IsValid (id_range (NodeByLabelScanInit example_query_ctx ?op))"
    by (simp add: NodeByLabelScanInit_def ConstructIterator_def Let_def example_scan_def
      NodeByLabelScanOp_SetIDRange_def NewNodeByLabelScanOp_def update_label_id_def
      example_query_ctx_def scan_label_matrix_def example_even_labels_def
      UnsignedRange_TightenRange_def UnsignedRange_New_def UnsignedRange_IsValid_def
      RG_MatrixTupleIter_AttachRange_def GRAPH_UNKNOWN_LABEL_def)
  show ?thesis
    using a b c d e example_scan_init c' scan_init_consume [OF a b] scan_init_consume [OF a' b']
    by (simp add: list_all_iff)
qed

section \<open>Reset and replay\<close>

lemma SkipConsume_preserves:
  "SkipConsume (op, child, freed) = (r, (op', child', freed')) \<Longrightarrow>
     skip op' = skip op \<and> stream child' = stream child \<and> skip_exp op' = skip_exp op"
proof (induction "(op, child, freed)" arbitrary: op child freed rule: SkipConsume.induct)
  case (1 op child freed)
  show ?case
  proof (cases "skipped op < skip op")
    case True
    show ?thesis
    proof (cases "pending child")
      case Nil
      then show ?thesis using True "1.prems"
        by (simp add: SkipConsume.simps OpBase_Consume_def)
    next
      case (Cons x xs)
      have oc: "OpBase_Consume child = (Some x, child\<lparr>pending := xs\<rparr>)"
        using Cons by (simp add: OpBase_Consume_def)
      have "SkipConsume (op\<lparr>skipped := skipped op + 1\<rparr>, child\<lparr>pending := xs\<rparr>, freed @ [x]) = (r, (op', child', freed'))"
        using True oc "1.prems" by (simp add: SkipConsume.simps)
      from "1.hyps"[OF True oc[symmetric] refl this] show ?thesis by simp
    qed
  next
    case False
    then show ?thesis using "1.prems"
      by (auto simp: SkipConsume.simps OpBase_Consume_def split: list.splits)
  qed
qed

lemma pulls_skip_preserves:
  "pulls k SkipConsume (op, child, freed) = (op', child', freed') \<Longrightarrow>
     skip op' = skip op \<and> stream child' = stream child"
proof (induction k arbitrary: op child freed)
  case 0
  then show ?case by simp
next
  case (Suc k)
  obtain r op1 child1 freed1 where c: "SkipConsume (op, child, freed) = (r, (op1, child1, freed1))"
    by (metis prod_cases3 surj_pair)
  from Suc.prems c have "pulls k SkipConsume (op1, child1, freed1) = (op', child', freed')" by simp
  from Suc.IH[OF this] SkipConsume_preserves[OF c] show ?case by simp
qed

lemma skip_reset_replay:
  assumes "skipped op = 0"
  shows "map_option fst (consume_all SkipConsume (skip_reset (pulls k SkipConsume (op, new_child xs, []))) [])
           = Some (drop (unat (skip op)) xs)
       \<and> map_option fst (consume_all SkipConsume (op, new_child xs, []) []) = Some (drop (unat (skip op)) xs)"
proof -
  obtain op' child' freed' where p: "pulls k SkipConsume (op, new_child xs, []) = (op', child', freed')"
    by (metis prod_cases3)
  from pulls_skip_preserves[OF p] have sk: "skip op' = skip op" and st: "stream child' = xs"
    by (simp_all add: new_child_def)
  have r: "skip_reset (op', child', freed') = (op'\<lparr>skipped := 0\<rparr>, child'\<lparr>pending := xs\<rparr>, freed')"
    using st by (simp add: skip_reset_def SkipReset_def OpBase_Reset_def)
  have 1: "map_option fst (consume_all SkipConsume (op'\<lparr>skipped := 0\<rparr>, child'\<lparr>pending := xs\<rparr>, freed') [])
        = Some (drop (unat (skip op)) xs)"
    using skip_consume_all[of "op'\<lparr>skipped := 0\<rparr>" "child'\<lparr>pending := xs\<rparr>" freed'] sk by simp
  have 2: "map_option fst (consume_all SkipConsume (op, new_child xs, []) []) = Some (drop (unat (skip op)) xs)"
    using skip_consume_all[of op "new_child xs" "[]"] assms by (simp add: new_child_def)
  show ?thesis using 1 2 p r by simp
qed

lemma tightened_idem: "tightened (tightened rng nr) nr = tightened rng nr"
proof (cases "valid rng \<and> UnsignedRange_IsValid rng")
  case False
  then have "tightened rng nr = rng\<lparr>valid := False\<rparr>"
    by (auto simp: tightened_def tighten_ge_0 UnsignedRange_TightenRange_def UnsignedRange_IsValid_def Let_def)
  then show ?thesis
    by (simp add: tightened_def tighten_ge_0 UnsignedRange_TightenRange_def)
next
  case True
  then have g: "UnsignedRange_TightenRange rng OP_GE 0 = rng" by (simp add: tighten_ge_0)
  have t: "tightened rng nr = UnsignedRange_TightenRange rng OP_LT (of_nat nr)"
    by (simp add: tightened_def g)
  have v: "valid (tightened rng nr) = UnsignedRange_IsValid (tightened rng nr)"
    unfolding t by (rule tighten_valid_flag)
  show ?thesis
  proof (cases "UnsignedRange_IsValid (tightened rng nr)")
    case False
    then have "\<not> valid (tightened rng nr)" using v by simp
    then show ?thesis
      by (simp add: tightened_def[of "tightened rng nr"] tighten_ge_0 UnsignedRange_TightenRange_def)
  next
    case T: True
    then have "UnsignedRange_TightenRange (tightened rng nr) OP_GE 0 = tightened rng nr"
      using v by (simp add: tighten_ge_0)
    then have "tightened (tightened rng nr) nr = UnsignedRange_TightenRange (tightened rng nr) OP_LT (of_nat nr)"
      by (simp add: tightened_def[of "tightened rng nr"])
    also have "\<dots> = tightened rng nr" unfolding t by (rule tighten_idem)
    finally show ?thesis .
  qed
qed

text \<open>Standalone consumption.\<close>

lemma standalone_consume_all:
  assumes "op_consume op = Fn_Consume" "A (iter op) = Some M"
  shows "consume_all (scan_consume qc) op acc =
           Some (acc @ map (\<lambda>t. (None, fst t)) (rest (iter op)), op\<lparr>iter := (iter op)\<lparr>rest := []\<rparr>\<rparr>)"
  using assms
proof (induction "rest (iter op)" arbitrary: op acc)
  case Nil
  then show ?case
    by (subst consume_all.simps)
       (simp add: scan_consume_def NodeByLabelScanConsume_def RG_MatrixTupleIter_next_def)
next
  case (Cons t ts)
  let ?op' = "op\<lparr>iter := (iter op)\<lparr>rest := ts\<rparr>\<rparr>"
  have r: "rest (iter op) = t # ts" using Cons.hyps(2) by simp
  have step: "consume_all (scan_consume qc) op acc = consume_all (scan_consume qc) ?op' (acc @ [(None, fst t)])"
    using Cons.prems r
    by (subst consume_all.simps)
       (simp add: scan_consume_def NodeByLabelScanConsume_def RG_MatrixTupleIter_next_def)
  have "consume_all (scan_consume qc) ?op' (acc @ [(None, fst t)]) =
          Some ((acc @ [(None, fst t)]) @ map (\<lambda>t. (None, fst t)) (rest (iter ?op')),
                ?op'\<lparr>iter := (iter ?op')\<lparr>rest := []\<rparr>\<rparr>)"
    by (rule Cons.hyps(1)) (use Cons.prems in simp_all)
  then show ?case unfolding step using r by simp
qed

lemma noop_consume_all:
  assumes "op_consume op = Fn_NoOp"
  shows "consume_all (scan_consume qc) op acc = Some (acc, op)"
  using assms by (subst consume_all.simps) (simp add: scan_consume_def NodeByLabelScanNoOp_def)

lemma standalone_pulls:
  assumes "op_consume op = Fn_Consume" "A (iter op) = Some M"
  shows "\<exists>ts af. pulls k (scan_consume qc) op = op\<lparr>iter := (iter op)\<lparr>rest := ts\<rparr>, assert_failed := af\<rparr>"
  using assms
proof (induction k arbitrary: op)
  case 0
  have "op = op\<lparr>iter := (iter op)\<lparr>rest := rest (iter op)\<rparr>, assert_failed := assert_failed op\<rparr>" by simp
  then show ?case by (metis pulls.simps(1))
next
  case (Suc k)
  define ts where "ts = tl (rest (iter op))"
  have s: "snd (scan_consume qc op) = op\<lparr>iter := (iter op)\<lparr>rest := ts\<rparr>\<rparr>"
  proof (cases "rest (iter op)")
    case Nil
    then have "op\<lparr>iter := (iter op)\<lparr>rest := ts\<rparr>\<rparr> = op" by (simp add: ts_def)
    moreover have "snd (scan_consume qc op) = op" using Nil Suc.prems
      by (simp add: scan_consume_def NodeByLabelScanConsume_def RG_MatrixTupleIter_next_def)
    ultimately show ?thesis by simp
  next
    case (Cons a as)
    then show ?thesis using Suc.prems
      by (simp add: ts_def scan_consume_def NodeByLabelScanConsume_def RG_MatrixTupleIter_next_def)
  qed
  let ?op' = "op\<lparr>iter := (iter op)\<lparr>rest := ts\<rparr>\<rparr>"
  have "\<exists>ts' af. pulls k (scan_consume qc) ?op' = ?op'\<lparr>iter := (iter ?op')\<lparr>rest := ts'\<rparr>, assert_failed := af\<rparr>"
    by (rule Suc.IH) (use Suc.prems in simp_all)
  then show ?case using s by auto
qed

lemma noop_pulls:
  assumes "op_consume op = Fn_NoOp"
  shows "pulls k (scan_consume qc) op = op"
  using assms by (induction k) (simp_all add: scan_consume_def NodeByLabelScanNoOp_def)

lemma update_label_id_inv:
  "scan_label_id (nctx op) \<noteq> GRAPH_UNKNOWN_LABEL \<or> schema_id qc (label (nctx op)) = None \<Longrightarrow>
   update_label_id qc op = op"
  by (auto simp: update_label_id_def)

lemma construct_inv:
  assumes "scan_inv qc L R xs op"
  shows "ConstructIterator qc op =
           (if UnsignedRange_IsValid R
            then (GrB_SUCCESS, op\<lparr>id_range := R, iter := \<lparr>A = Some L, rest = scan_tuples L R\<rparr>\<rparr>)
            else (GrB_DIMENSION_MISMATCH, op\<lparr>id_range := R\<rparr>))"
  using assms
  by (simp add: ConstructIterator_eq Let_def scan_inv_def scan_tuples_def RG_MatrixTupleIter_AttachRange_def)

lemma scan_inv_upd:
  assumes "scan_inv qc L R xs op"
  shows "scan_inv qc L R xs (op\<lparr>id_range := R\<rparr>)"
    and "scan_inv qc L R xs (op\<lparr>child_record := cr\<rparr>)"
    and "A it = A (iter op) \<Longrightarrow> scan_inv qc L R xs (op\<lparr>iter := it\<rparr>)"
    and "UnsignedRange_IsValid R \<Longrightarrow> scan_inv qc L R xs (op\<lparr>iter := it\<rparr>)"
    and "stream ch' = xs \<Longrightarrow> scan_inv qc L R xs (op\<lparr>children := [ch']\<rparr>)"
  using assms tightened_idem[of "id_range op" "nrows L"]
  by (auto simp: scan_inv_def)

lemma reset_inv:
  assumes "scan_inv qc L R xs op"
  shows "ResetIterator qc op =
           (if UnsignedRange_IsValid R
            then op\<lparr>id_range := R, iter := \<lparr>A = Some L, rest = scan_tuples L R\<rparr>\<rparr>
            else op\<lparr>id_range := R\<rparr>)"
  by (simp add: ResetIterator_def construct_inv[OF assms])

lemma loop_emit:
  assumes "info = GrB_SUCCESS" "child_record op = Some c"
  shows "ConsumeFromChild_loop qc (info, nodeId, op) = (Some (Some c, nodeId), op)"
  using assms by (subst ConsumeFromChild_loop.simps) simp

lemma loop_depleted:
  assumes "info = GrB_NULL_POINTER \<or> child_record op = None \<or> info = GxB_EXHAUSTED"
    and "children op = [ch]" "pending ch = []"
  shows "ConsumeFromChild_loop qc (info, nodeId, op) = (None, op\<lparr>child_record := None\<rparr>)"
proof -
  have "ch\<lparr>pending := []\<rparr> = ch" using assms(3) by simp
  then show ?thesis using assms
    by (subst ConsumeFromChild_loop.simps) (auto simp: OpBase_Consume_def)
qed

lemma loop_nonempty:
  assumes inv: "scan_inv qc L R xs op"
    and cond: "info = GrB_NULL_POINTER \<or> child_record op = None \<or> info = GxB_EXHAUSTED"
    and att: "info = GrB_NULL_POINTER \<or> A (iter op) \<noteq> None"
    and ch: "children op = [ch]" "pending ch = c # cs"
    and ids: "scan_tuples L R = t # ts"
  shows "ConsumeFromChild_loop qc (info, nodeId, op) =
           (Some (Some c, fst t),
            op\<lparr>child_record := Some c, children := [ch\<lparr>pending := cs\<rparr>], id_range := R,
               iter := \<lparr>A = Some L, rest = ts\<rparr>\<rparr>)"
proof -
  have v: "UnsignedRange_IsValid R" using ids by (auto simp: scan_tuples_def split: if_splits)
  let ?op1 = "op\<lparr>child_record := Some c, children := [ch\<lparr>pending := cs\<rparr>]\<rparr>"
  have sx: "stream ch = xs" using inv ch(1) by (auto simp: scan_inv_def)
  have inv1: "scan_inv qc L R xs ?op1"
    using inv sx by (auto simp: scan_inv_def)
  have u: "update_label_id qc ?op1 = ?op1"
    using inv1 by (intro update_label_id_inv) (simp add: scan_inv_def)
  have ci: "ConstructIterator qc ?op1 = (GrB_SUCCESS, ?op1\<lparr>id_range := R, iter := \<lparr>A = Some L, rest = t # ts\<rparr>\<rparr>)"
    using construct_inv[OF inv1] v ids by simp
  have ri: "ResetIterator qc ?op1 = ?op1\<lparr>id_range := R, iter := \<lparr>A = Some L, rest = t # ts\<rparr>\<rparr>"
    using reset_inv[OF inv1] v ids by simp
  let ?op3 = "?op1\<lparr>id_range := R, iter := \<lparr>A = Some L, rest = ts\<rparr>\<rparr>"
  have emit: "ConsumeFromChild_loop qc (GrB_SUCCESS, fst t, ?op3) = (Some (Some c, fst t), ?op3)"
    by (rule loop_emit) simp_all
  show ?thesis
    using cond ch
    by (subst ConsumeFromChild_loop.simps)
       (simp add: OpBase_Consume_def u ci ri RG_MatrixTupleIter_next_def emit Let_def)
qed

lemma loop_empty:
  assumes "scan_inv qc L R xs op"
    and "info = GrB_NULL_POINTER \<or> child_record op = None \<or> info = GxB_EXHAUSTED"
    and "info = GrB_NULL_POINTER \<or> A (iter op) \<noteq> None"
    and "children op = [ch]"
    and "scan_tuples L R = []"
  shows "fst (ConsumeFromChild_loop qc (info, nodeId, op)) = None
         \<and> scan_inv qc L R xs (snd (ConsumeFromChild_loop qc (info, nodeId, op)))"
  using assms
proof (induction "pending ch" arbitrary: op ch info nodeId)
  case Nil
  then have "pending ch = []" by simp
  from loop_depleted[OF Nil.prems(2,4) this] scan_inv_upd(2)[OF Nil.prems(1)]
  show ?case by simp
next
  case (Cons c cs)
  have pc: "pending ch = c # cs" using Cons.hyps(2) by simp
  let ?ch' = "ch\<lparr>pending := cs\<rparr>"
  let ?op1 = "op\<lparr>child_record := Some c, children := [?ch']\<rparr>"
  have sx: "stream ch = xs" using Cons.prems(1,4) by (auto simp: scan_inv_def)
  have inv1: "scan_inv qc L R xs ?op1"
    using Cons.prems(1) sx by (auto simp: scan_inv_def)
  have u: "update_label_id qc ?op1 = ?op1"
    using inv1 by (intro update_label_id_inv) (simp add: scan_inv_def)
  show ?case
  proof (cases "UnsignedRange_IsValid R")
    case True
    let ?op3 = "?op1\<lparr>id_range := R, iter := \<lparr>A = Some L, rest = []\<rparr>\<rparr>"
    have ci: "ConstructIterator qc ?op1 = (GrB_SUCCESS, ?op3)"
      using construct_inv[OF inv1] True Cons.prems(5) by simp
    have ri: "ResetIterator qc ?op1 = ?op3"
      using reset_inv[OF inv1] True Cons.prems(5) by simp
    have step: "ConsumeFromChild_loop qc (info, nodeId, op) = ConsumeFromChild_loop qc (GxB_EXHAUSTED, nodeId, ?op3)"
      using Cons.prems(2,4) pc
      by (subst ConsumeFromChild_loop.simps)
         (simp add: OpBase_Consume_def u ci ri RG_MatrixTupleIter_next_def Let_def)
    have inv3: "scan_inv qc L R xs ?op3"
      using inv1 True by (auto simp: scan_inv_def tightened_idem)
    have "fst (ConsumeFromChild_loop qc (GxB_EXHAUSTED, nodeId, ?op3)) = None
         \<and> scan_inv qc L R xs (snd (ConsumeFromChild_loop qc (GxB_EXHAUSTED, nodeId, ?op3)))"
      by (rule Cons.hyps(1)[of ?ch']) (use inv3 Cons.prems(5) in simp_all)
    then show ?thesis unfolding step .
  next
    case False
    then have det: "A (iter op) = None" using Cons.prems(1) by (auto simp: scan_inv_def)
    then have inf: "info = GrB_NULL_POINTER" using Cons.prems(3) by simp
    let ?op2 = "?op1\<lparr>id_range := R\<rparr>"
    have ci: "ConstructIterator qc ?op1 = (GrB_DIMENSION_MISMATCH, ?op2)"
      using construct_inv[OF inv1] False by simp
    have step: "ConsumeFromChild_loop qc (info, nodeId, op) = ConsumeFromChild_loop qc (info, nodeId, ?op2)"
      using Cons.prems(4) pc inf
      by (subst ConsumeFromChild_loop.simps)
         (simp add: OpBase_Consume_def u ci Let_def)
    have inv2: "scan_inv qc L R xs ?op2"
      using inv1 by (auto simp: scan_inv_def tightened_idem)
    have "fst (ConsumeFromChild_loop qc (info, nodeId, ?op2)) = None
         \<and> scan_inv qc L R xs (snd (ConsumeFromChild_loop qc (info, nodeId, ?op2)))"
      by (rule Cons.hyps(1)[of ?ch']) (use inv2 inf Cons.prems(5) in simp_all)
    then show ?thesis unfolding step .
  qed
qed

lemma emit_phase:
  assumes "op_consume op = Fn_ConsumeFromChild" "child_record op = Some c" "A (iter op) = Some M"
  shows "consume_all (scan_consume qc) op acc =
         consume_all (scan_consume qc) (op\<lparr>iter := (iter op)\<lparr>rest := []\<rparr>\<rparr>)
           (acc @ map (\<lambda>t. (Some c, fst t)) (rest (iter op)))"
  using assms
proof (induction "rest (iter op)" arbitrary: op acc)
  case Nil
  have e: "rest (iter op) = []" using Nil.hyps by simp
  have "(iter op)\<lparr>rest := rest (iter op)\<rparr> = iter op" by simp
  then have "(iter op)\<lparr>rest := []\<rparr> = iter op" unfolding e .
  then have eq: "op\<lparr>iter := (iter op)\<lparr>rest := []\<rparr>\<rparr> = op" by simp
  show ?case unfolding eq e by simp
next
  case (Cons t ts)
  have r: "rest (iter op) = t # ts" using Cons.hyps(2) by simp
  let ?op' = "op\<lparr>iter := (iter op)\<lparr>rest := ts\<rparr>\<rparr>"
  have "scan_consume qc op = (Some (Some c, fst t), ?op')"
    using Cons.prems r
    by (simp add: scan_consume_def NodeByLabelScanConsumeFromChild_def RG_MatrixTupleIter_next_def loop_emit)
  then have step: "consume_all (scan_consume qc) op acc = consume_all (scan_consume qc) ?op' (acc @ [(Some c, fst t)])"
    by (subst consume_all.simps) simp
  have "consume_all (scan_consume qc) ?op' (acc @ [(Some c, fst t)]) =
         consume_all (scan_consume qc) (?op'\<lparr>iter := (iter ?op')\<lparr>rest := []\<rparr>\<rparr>)
           ((acc @ [(Some c, fst t)]) @ map (\<lambda>t. (Some c, fst t)) (rest (iter ?op')))"
    by (rule Cons.hyps(1)) (use Cons.prems in simp_all)
  then show ?case unfolding step using r by simp
qed

text \<open>The call of the consume function, as a call of the loop.\<close>

lemma from_child_as_loop:
  assumes "op_consume op = Fn_ConsumeFromChild"
    "child_record op = None \<or> rest (iter op) = [] \<or> A (iter op) = None"
  shows "\<exists>info nodeId it'. scan_consume qc op = ConsumeFromChild_loop qc (info, nodeId, op\<lparr>iter := it'\<rparr>)
           \<and> A it' = A (iter op)
           \<and> (info = GrB_NULL_POINTER \<or> child_record op = None \<or> info = GxB_EXHAUSTED)
           \<and> (info = GrB_NULL_POINTER \<or> A (iter op) \<noteq> None)"
proof (cases "A (iter op)")
  case None
  then have "scan_consume qc op = ConsumeFromChild_loop qc (GrB_NULL_POINTER, 0, op\<lparr>iter := iter op\<rparr>)"
    using assms(1) by (simp add: scan_consume_def NodeByLabelScanConsumeFromChild_def RG_MatrixTupleIter_next_def)
  then show ?thesis by blast
next
  case (Some M)
  show ?thesis
  proof (cases "rest (iter op)")
    case Nil
    then have "scan_consume qc op = ConsumeFromChild_loop qc (GxB_EXHAUSTED, 0, op\<lparr>iter := iter op\<rparr>)"
      using assms(1) Some
      by (simp add: scan_consume_def NodeByLabelScanConsumeFromChild_def RG_MatrixTupleIter_next_def)
    then show ?thesis using Some by blast
  next
    case (Cons t ts)
    then have cr: "child_record op = None" using assms(2) Some by simp
    have "scan_consume qc op = ConsumeFromChild_loop qc (GrB_SUCCESS, fst t, op\<lparr>iter := (iter op)\<lparr>rest := ts\<rparr>\<rparr>)"
      using assms(1) Some Cons
      by (simp add: scan_consume_def NodeByLabelScanConsumeFromChild_def RG_MatrixTupleIter_next_def)
    moreover have "A ((iter op)\<lparr>rest := ts\<rparr>) = A (iter op)" by simp
    ultimately show ?thesis using Some cr by blast
  qed
qed

lemma advance_phase:
  assumes "scan_inv qc L R xs op" "children op = [ch]"
    and "child_record op = None \<or> rest (iter op) = []"
  shows "\<exists>op'. consume_all (scan_consume qc) op acc =
           Some (acc @ concat (map (\<lambda>c. map (\<lambda>t. (Some c, fst t)) (scan_tuples L R)) (pending ch)), op')"
  using assms
proof (induction "pending ch" arbitrary: op ch acc)
  case Nil
  have oc: "op_consume op = Fn_ConsumeFromChild" using Nil.prems(1) by (simp add: scan_inv_def)
  from Nil.prems(3) have "child_record op = None \<or> rest (iter op) = [] \<or> A (iter op) = None" by blast
  from from_child_as_loop[OF oc this] obtain info nodeId it' where
    sc: "scan_consume qc op = ConsumeFromChild_loop qc (info, nodeId, op\<lparr>iter := it'\<rparr>)"
    and c: "info = GrB_NULL_POINTER \<or> child_record op = None \<or> info = GxB_EXHAUSTED"
    by blast
  have "ConsumeFromChild_loop qc (info, nodeId, op\<lparr>iter := it'\<rparr>) = (None, op\<lparr>iter := it'\<rparr>\<lparr>child_record := None\<rparr>)"
    by (rule loop_depleted[where ch = ch]) (use c Nil in simp_all)
  then show ?case using sc Nil.hyps
    by (subst consume_all.simps) simp
next
  case (Cons c cs)
  have pc: "pending ch = c # cs" using Cons.hyps(2) by simp
  have oc: "op_consume op = Fn_ConsumeFromChild" using Cons.prems(1) by (simp add: scan_inv_def)
  from Cons.prems(3) have "child_record op = None \<or> rest (iter op) = [] \<or> A (iter op) = None" by blast
  from from_child_as_loop[OF oc this] obtain info nodeId it' where
    sc: "scan_consume qc op = ConsumeFromChild_loop qc (info, nodeId, op\<lparr>iter := it'\<rparr>)"
    and a: "A it' = A (iter op)"
    and c: "info = GrB_NULL_POINTER \<or> child_record op = None \<or> info = GxB_EXHAUSTED"
    and at: "info = GrB_NULL_POINTER \<or> A (iter op) \<noteq> None"
    by blast
  let ?op0 = "op\<lparr>iter := it'\<rparr>"
  have inv0: "scan_inv qc L R xs ?op0" using scan_inv_upd(3)[OF Cons.prems(1) a] .
  have c0: "info = GrB_NULL_POINTER \<or> child_record ?op0 = None \<or> info = GxB_EXHAUSTED" using c by simp
  have at0: "info = GrB_NULL_POINTER \<or> A (iter ?op0) \<noteq> None" using at a by simp
  have ch0: "children ?op0 = [ch]" using Cons.prems(2) by simp
  show ?case
  proof (cases "scan_tuples L R")
    case Nil
    from loop_empty[OF inv0 c0 at0 ch0 Nil, of nodeId]
    have "fst (scan_consume qc op) = None" using sc by simp
    then obtain op' where "scan_consume qc op = (None, op')" by (cases "scan_consume qc op") auto
    then show ?thesis using Nil
      by (subst consume_all.simps) simp
  next
    case T: (Cons t ts)
    let ?ch' = "ch\<lparr>pending := cs\<rparr>"
    let ?op1 = "?op0\<lparr>child_record := Some c, children := [?ch'], id_range := R,
               iter := \<lparr>A = Some L, rest = ts\<rparr>\<rparr>"
    have l: "scan_consume qc op = (Some (Some c, fst t), ?op1)"
      unfolding sc by (rule loop_nonempty[OF inv0 c0 at0 ch0 pc T])
    have v: "UnsignedRange_IsValid R" using T by (auto simp: scan_tuples_def split: if_splits)
    have sx: "stream ch = xs" using Cons.prems(1,2) by (auto simp: scan_inv_def)
    have inv1: "scan_inv qc L R xs ?op1"
      using inv0 v sx by (auto simp: scan_inv_def tightened_idem)
    let ?op2 = "?op1\<lparr>iter := (iter ?op1)\<lparr>rest := []\<rparr>\<rparr>"
    have inv2: "scan_inv qc L R xs ?op2"
      using inv1 v by (auto simp: scan_inv_def)
    have step: "consume_all (scan_consume qc) op acc = consume_all (scan_consume qc) ?op1 (acc @ [(Some c, fst t)])"
      by (subst consume_all.simps) (simp add: l)
    have em: "consume_all (scan_consume qc) ?op1 (acc @ [(Some c, fst t)]) =
              consume_all (scan_consume qc) ?op2 ((acc @ [(Some c, fst t)]) @ map (\<lambda>t. (Some c, fst t)) (rest (iter ?op1)))"
      by (rule emit_phase[where M = L]) (use oc in simp_all)
    have "\<exists>op'. consume_all (scan_consume qc) ?op2 ((acc @ [(Some c, fst t)]) @ map (\<lambda>t. (Some c, fst t)) (rest (iter ?op1))) =
           Some (((acc @ [(Some c, fst t)]) @ map (\<lambda>t. (Some c, fst t)) (rest (iter ?op1)))
                   @ concat (map (\<lambda>c. map (\<lambda>t. (Some c, fst t)) (scan_tuples L R)) (pending ?ch')), op')"
      by (rule Cons.hyps(1)[OF _ inv2]) simp_all
    then show ?thesis unfolding step em using pc T by simp
  qed
qed

lemma from_child_step_inv:
  assumes inv: "scan_inv qc L R xs op"
  shows "scan_inv qc L R xs (snd (scan_consume qc op))"
proof -
  have oc: "op_consume op = Fn_ConsumeFromChild" using inv by (simp add: scan_inv_def)
  obtain ch where ch: "children op = [ch]" and sx: "stream ch = xs"
    using inv by (auto simp: scan_inv_def)
  show ?thesis
  proof (cases "child_record op = None \<or> rest (iter op) = [] \<or> A (iter op) = None")
    case False
    then obtain c M t ts where f: "child_record op = Some c" "A (iter op) = Some M" "rest (iter op) = t # ts"
      by (cases "rest (iter op)") auto
    have "scan_consume qc op = (Some (Some c, fst t), op\<lparr>iter := (iter op)\<lparr>rest := ts\<rparr>\<rparr>)"
      using oc f
      by (simp add: scan_consume_def NodeByLabelScanConsumeFromChild_def RG_MatrixTupleIter_next_def loop_emit)
    then show ?thesis using scan_inv_upd(3)[OF inv, of "(iter op)\<lparr>rest := ts\<rparr>"] by simp
  next
    case True
    from from_child_as_loop[OF oc True] obtain info nodeId it' where
      sc: "scan_consume qc op = ConsumeFromChild_loop qc (info, nodeId, op\<lparr>iter := it'\<rparr>)"
      and a: "A it' = A (iter op)"
      and c: "info = GrB_NULL_POINTER \<or> child_record op = None \<or> info = GxB_EXHAUSTED"
      and at: "info = GrB_NULL_POINTER \<or> A (iter op) \<noteq> None"
      by blast
    let ?op0 = "op\<lparr>iter := it'\<rparr>"
    have inv0: "scan_inv qc L R xs ?op0" using scan_inv_upd(3)[OF inv a] .
    have c0: "info = GrB_NULL_POINTER \<or> child_record ?op0 = None \<or> info = GxB_EXHAUSTED" using c by simp
    have at0: "info = GrB_NULL_POINTER \<or> A (iter ?op0) \<noteq> None" using at a by simp
    have ch0: "children ?op0 = [ch]" using ch by simp
    show ?thesis
    proof (cases "scan_tuples L R")
      case Nil
      from loop_empty[OF inv0 c0 at0 ch0 Nil, of nodeId] show ?thesis using sc by simp
    next
      case T: (Cons t ts)
      have v: "UnsignedRange_IsValid R" using T by (auto simp: scan_tuples_def split: if_splits)
      show ?thesis
      proof (cases "pending ch")
        case Nil
        from loop_depleted[OF c0 ch0 Nil, of qc nodeId] scan_inv_upd(2)[OF inv0, of None]
        show ?thesis using sc by simp
      next
        case (Cons c cs)
        from loop_nonempty[OF inv0 c0 at0 ch0 Cons T, of nodeId]
        have "snd (scan_consume qc op) = ?op0\<lparr>child_record := Some c, children := [ch\<lparr>pending := cs\<rparr>], id_range := R,
               iter := \<lparr>A = Some L, rest = ts\<rparr>\<rparr>" using sc by simp
        moreover have "scan_inv qc L R xs (?op0\<lparr>child_record := Some c, children := [ch\<lparr>pending := cs\<rparr>], id_range := R,
               iter := \<lparr>A = Some L, rest = ts\<rparr>\<rparr>)"
          using inv0 v sx by (auto simp: scan_inv_def tightened_idem)
        ultimately show ?thesis by simp
      qed
    qed
  qed
qed

lemma from_child_pulls_inv:
  "scan_inv qc L R xs op \<Longrightarrow> scan_inv qc L R xs (pulls k (scan_consume qc) op)"
  by (induction k arbitrary: op) (simp_all add: from_child_step_inv)

lemma from_child_reset:
  assumes inv: "scan_inv qc L R xs op"
  shows "scan_inv qc L R xs (scan_reset qc op) \<and> child_record (scan_reset qc op) = None
         \<and> (\<exists>ch. children (scan_reset qc op) = [ch] \<and> pending ch = xs)"
proof -
  obtain ch where ch: "children op = [ch]" and sx: "stream ch = xs"
    using inv by (auto simp: scan_inv_def)
  have inv1: "scan_inv qc L R xs (op\<lparr>child_record := None\<rparr>)" using scan_inv_upd(2)[OF inv] .
  show ?thesis
    using inv ch sx
    by (auto simp: scan_reset_def NodeByLabelScanReset_def reset_inv[OF inv1] OpBase_Reset_def
                   scan_inv_def tightened_idem)
qed

lemma from_child_replay:
  assumes inv: "scan_inv qc L R xs op" and cr: "child_record op = None"
    and ch: "children op = [ch]" "pending ch = xs"
  shows "map_option fst (consume_all (scan_consume qc) (scan_reset qc (pulls k (scan_consume qc) op)) [])
           = Some (concat (map (\<lambda>c. map (\<lambda>t. (Some c, fst t)) (scan_tuples L R)) xs))
       \<and> map_option fst (consume_all (scan_consume qc) op [])
           = Some (concat (map (\<lambda>c. map (\<lambda>t. (Some c, fst t)) (scan_tuples L R)) xs))"
proof -
  let ?s = "scan_reset qc (pulls k (scan_consume qc) op)"
  from from_child_reset[OF from_child_pulls_inv[OF inv, of k]] obtain ch' where
    r: "scan_inv qc L R xs ?s" "child_record ?s = None" "children ?s = [ch']" "pending ch' = xs"
    by blast
  from advance_phase[OF r(1) r(3), of "[]"] r(2,4)
  have 1: "map_option fst (consume_all (scan_consume qc) ?s [])
           = Some (concat (map (\<lambda>c. map (\<lambda>t. (Some c, fst t)) (scan_tuples L R)) xs))"
    by auto
  from advance_phase[OF inv ch(1), of "[]"] cr ch(2)
  have 2: "map_option fst (consume_all (scan_consume qc) op [])
           = Some (concat (map (\<lambda>c. map (\<lambda>t. (Some c, fst t)) (scan_tuples L R)) xs))"
    by auto
  show ?thesis using 1 2 by simp
qed

lemma scan_reset_consume_fn: "op_consume (scan_reset qc op) = op_consume op"
  by (simp add: scan_reset_def NodeByLabelScanReset_def ResetIterator_def ConstructIterator_eq Let_def)

lemma standalone_replay:
  fixes op0 :: "'r NodeByLabelScan"
  assumes nc: "children op0 = []"
  shows "map_option fst (consume_all (scan_consume qc)
            (scan_reset qc (pulls k (scan_consume qc) (NodeByLabelScanInit qc op0))) [])
           = map_option fst (consume_all (scan_consume qc) (NodeByLabelScanInit qc op0) [])
       \<and> consume_all (scan_consume qc) (NodeByLabelScanInit qc op0) [] \<noteq> None"
proof -
  let ?op1 = "NodeByLabelScanInit qc op0"
  let ?L = "scan_label_matrix qc (scan_label_id (nctx op0))"
  let ?R = "tightened (id_range op0) (nrows ?L)"
  let ?AR = "RG_MatrixTupleIter_AttachRange (iter op0) ?L
                            (unat (if include_min ?R then range_min ?R else range_min ?R + 1))
                            (unat (if include_max ?R then range_max ?R else range_max ?R - 1))"
  have ci: "ConstructIterator qc (op0\<lparr>op_consume := Fn_Consume\<rparr>) =
     (if \<not> UnsignedRange_IsValid ?R then (GrB_DIMENSION_MISMATCH, op0\<lparr>op_consume := Fn_Consume, id_range := ?R\<rparr>)
      else (GrB_SUCCESS, op0\<lparr>op_consume := Fn_Consume, id_range := ?R, iter := ?AR\<rparr>))"
    by (simp add: ConstructIterator_eq Let_def)
  have init: "?op1 =
     (if scan_label_id (nctx op0) = GRAPH_UNKNOWN_LABEL then op0\<lparr>op_consume := Fn_NoOp\<rparr>
      else if \<not> UnsignedRange_IsValid ?R then op0\<lparr>op_consume := Fn_NoOp, id_range := ?R\<rparr>
      else op0\<lparr>op_consume := Fn_Consume, id_range := ?R, iter := ?AR\<rparr>)"
    using nc by (simp add: NodeByLabelScanInit_def Let_def ci)
  have "op_consume ?op1 = Fn_NoOp \<or>
        (UnsignedRange_IsValid ?R \<and> ?op1 = op0\<lparr>op_consume := Fn_Consume, id_range := ?R, iter := ?AR\<rparr>)"
    unfolding init by simp
  then consider (noop) "op_consume ?op1 = Fn_NoOp"
    | (scan) "UnsignedRange_IsValid ?R" "?op1 = op0\<lparr>op_consume := Fn_Consume, id_range := ?R, iter := ?AR\<rparr>"
    by blast
  then show ?thesis
  proof cases
    case noop
    then have "op_consume (scan_reset qc (pulls k (scan_consume qc) ?op1)) = Fn_NoOp"
      by (simp add: noop_pulls scan_reset_consume_fn)
    then show ?thesis using noop by (simp add: noop_consume_all)
  next
    case scan
    have oc: "op_consume ?op1 = Fn_Consume" and at: "A (iter ?op1) = Some ?L"
      and it: "iter ?op1 = ?AR"
      unfolding scan(2) by (simp_all add: RG_MatrixTupleIter_AttachRange_def)
    from standalone_pulls[OF oc at, of k qc] obtain ts af where
      p: "pulls k (scan_consume qc) ?op1 = ?op1\<lparr>iter := (iter ?op1)\<lparr>rest := ts\<rparr>, assert_failed := af\<rparr>"
      by blast
    let ?s = "scan_reset qc (pulls k (scan_consume qc) ?op1)"
    have s: "op_consume ?s = Fn_Consume \<and> iter ?s = ?AR"
      unfolding p unfolding scan(2) using scan(1)
      by (simp add: scan_reset_def NodeByLabelScanReset_def ResetIterator_def ConstructIterator_eq
                    Let_def tightened_idem RG_MatrixTupleIter_AttachRange_def)
    then have as: "A (iter ?s) = Some ?L" by (simp add: RG_MatrixTupleIter_AttachRange_def)
    from standalone_consume_all[OF conjunct1[OF s] as, of qc "[]"]
      standalone_consume_all[OF oc at, of qc "[]"] s it
    show ?thesis by simp
  qed
qed

lemma new_scan_inv:
  "scan_inv qc
     (scan_label_matrix qc (scan_label_id (nctx
        (NodeByLabelScanOp_SetIDRange (NewNodeByLabelScanOp qc ctx [new_child xs]) rng))))
     (tightened (id_range (NodeByLabelScanOp_SetIDRange (NewNodeByLabelScanOp qc ctx [new_child xs]) rng))
        (nrows (scan_label_matrix qc (scan_label_id (nctx
           (NodeByLabelScanOp_SetIDRange (NewNodeByLabelScanOp qc ctx [new_child xs]) rng))))))
     xs
     (NodeByLabelScanInit qc (NodeByLabelScanOp_SetIDRange (NewNodeByLabelScanOp qc ctx [new_child xs]) rng))
   \<and> child_record (NodeByLabelScanInit qc
         (NodeByLabelScanOp_SetIDRange (NewNodeByLabelScanOp qc ctx [new_child xs]) rng)) = None
   \<and> children (NodeByLabelScanInit qc
         (NodeByLabelScanOp_SetIDRange (NewNodeByLabelScanOp qc ctx [new_child xs]) rng)) = [new_child xs]"
  by (auto simp: scan_inv_def NodeByLabelScanInit_def NodeByLabelScanOp_SetIDRange_def
        NewNodeByLabelScanOp_def update_label_id_def Let_def new_child_def detached_iter_def
        GRAPH_UNKNOWN_LABEL_def split: option.splits)

lemma example_skip_op:
  "fst (NewSkipOp skip_param_heap 0 (bind_n 2)) = \<lparr>skip = 2, skipped = 0, skip_exp = Some 1\<rparr>"
  by (simp add: NewSkipOp_def eval_skip_def skip_param_heap_def bind_n_def AR_EXP_Clone_def
      AR_EXP_Evaluate_def AR_EXP_Free_def SI_TYPE_def SI_GET_NUMERIC_def SI_LongVal_def)

text \<open>
  Replay for Skip and NodeByLabelScan. Take an initialized Skip over a child that
  produces \<open>ys\<close>, and an initialized NodeByLabelScan without a child or with a
  child that produces \<open>xs\<close>, over an unchanged graph. After any number \<open>k\<close>
  of consume calls, a reset (of the operator and its child) followed by consumption to
  exhaustion yields the same stream as the initial consumption, and that consumption
  returns. For Skip the stream is \<open>ys\<close> without its first \<open>skip\<close>
  records both times: the reset clears only \<open>skipped\<close>.
\<close>

lemma skip_and_scan_replay:
  fixes op :: OpSkip and ys :: "'a list" and xs :: "'r list"
  assumes "skipped op = 0"
    and "cs = [] \<or> cs = [new_child xs]"
    and "scan = NodeByLabelScanInit qc
                  (NodeByLabelScanOp_SetIDRange (NewNodeByLabelScanOp qc ctx cs) rng)"
  shows "map_option fst (consume_all SkipConsume (skip_reset (pulls k SkipConsume (op, new_child ys, []))) [])
           = map_option fst (consume_all SkipConsume (op, new_child ys, []) [])
       \<and> map_option fst (consume_all SkipConsume (op, new_child ys, []) []) = Some (drop (unat (skip op)) ys)
       \<and> map_option fst (consume_all (scan_consume qc) (scan_reset qc (pulls k (scan_consume qc) scan)) [])
           = map_option fst (consume_all (scan_consume qc) scan [])
       \<and> consume_all (scan_consume qc) scan [] \<noteq> None"
proof -
  have a: "map_option fst (consume_all SkipConsume (skip_reset (pulls k SkipConsume (op, new_child ys, []))) [])
           = Some (drop (unat (skip op)) ys)"
    and b: "map_option fst (consume_all SkipConsume (op, new_child ys, []) []) = Some (drop (unat (skip op)) ys)"
    using skip_reset_replay[OF assms(1), of k ys] by blast+
  have sk: "map_option fst (consume_all SkipConsume (skip_reset (pulls k SkipConsume (op, new_child ys, []))) [])
           = map_option fst (consume_all SkipConsume (op, new_child ys, []) [])
       \<and> map_option fst (consume_all SkipConsume (op, new_child ys, []) []) = Some (drop (unat (skip op)) ys)"
    unfolding a b by simp
  let ?op0 = "NodeByLabelScanOp_SetIDRange (NewNodeByLabelScanOp qc ctx cs) rng"
  have sc: "map_option fst (consume_all (scan_consume qc) (scan_reset qc (pulls k (scan_consume qc) scan)) [])
           = map_option fst (consume_all (scan_consume qc) scan [])
       \<and> consume_all (scan_consume qc) scan [] \<noteq> None"
  proof (cases "cs = []")
    case True
    then have "children ?op0 = []"
      by (simp add: NodeByLabelScanOp_SetIDRange_def NewNodeByLabelScanOp_def update_label_id_def
               split: option.splits)
    from standalone_replay[OF this, of qc k] show ?thesis unfolding assms(3) .
  next
    case False
    then have cs: "cs = [new_child xs]" using assms(2) by simp
    note n = new_scan_inv[of qc ctx xs rng]
    have p: "pending (new_child xs) = xs" by (simp add: new_child_def)
    from from_child_replay[OF conjunct1[OF n] conjunct1[OF conjunct2[OF n]] conjunct2[OF conjunct2[OF n]] p, of k]
    show ?thesis unfolding assms(3) cs by auto
  qed
  show ?thesis using sk sc by blast
qed

lemma skip_and_scan_replay_example:
  "skipped (fst (NewSkipOp skip_param_heap 0 (bind_n 2))) = 0
   \<and> map_option fst (consume_all SkipConsume
         (skip_reset (pulls 3 SkipConsume (fst (NewSkipOp skip_param_heap 0 (bind_n 2)), new_child ''abcdef'', []))) [])
       = Some ''cdef''
   \<and> map_option fst (consume_all SkipConsume
         (fst (NewSkipOp skip_param_heap 0 (bind_n 2)), new_child ''abcdef'', []) []) = Some ''cdef''
   \<and> map_option fst (consume_all (scan_consume example_query_ctx)
         (scan_reset example_query_ctx
            (pulls 2 (scan_consume example_query_ctx)
               (NodeByLabelScanInit example_query_ctx (example_scan [new_child [7 :: nat, 8]])))) [])
       = map_option fst (consume_all (scan_consume example_query_ctx)
           (NodeByLabelScanInit example_query_ctx (example_scan [new_child [7 :: nat, 8]])) [])
   \<and> consume_all (scan_consume example_query_ctx)
         (NodeByLabelScanInit example_query_ctx (example_scan [new_child [7 :: nat, 8]])) [] \<noteq> None"
proof -
  let ?op = "fst (NewSkipOp skip_param_heap 0 (bind_n 2))"
  have a: "skipped ?op = 0" by (simp add: example_skip_op)
  have b: "[new_child [7 :: nat, 8]] = [] \<or> [new_child [7 :: nat, 8]] = [new_child [7, 8]]" by simp
  have c: "NodeByLabelScanInit example_query_ctx (example_scan [new_child [7 :: nat, 8]])
         = NodeByLabelScanInit example_query_ctx
             (NodeByLabelScanOp_SetIDRange
                (NewNodeByLabelScanOp example_query_ctx
                   \<lparr>node_alias = ''n'', label = ''L'', scan_label_id = GRAPH_UNKNOWN_LABEL\<rparr>
                   [new_child [7 :: nat, 8]])
                (UnsignedRange_TightenRange UnsignedRange_New OP_LT 6))"
    by (simp add: example_scan_def)
  have n: "unat (skip ?op) = 2" by (simp add: example_skip_op)
  show ?thesis
    using a skip_and_scan_replay [where k = 3 and ys = "''abcdef''", OF a b c]
      skip_and_scan_replay [where k = 2 and ys = "''abcdef''", OF a b c]
    unfolding n by simp
qed

text \<open>
  Claim C9, at a failing input. \<^verbatim>\<open>NewLoadCSVOp\<close> registers no reset function, so a
  reset of a LoadCSV tap leaves its reader where it is. Over a file of the rows
  \<open>a\<close> and \<open>b\<close> the initial consumption yields both rows; a reset after one
  consume call followed by consumption to exhaustion yields only \<open>b\<close>, and a
  reset after two yields nothing.
\<close>

theorem load_csv_reset_does_not_replay:
  "csv_reset example_load_csv = None
   \<and> map_option fst (consume_all (load_csv_consume example_csv_files) example_load_csv [])
       = Some [(None, [''a'']), (None, [''b''])]
   \<and> map_option fst (consume_all (load_csv_consume example_csv_files)
         (load_csv_reset (pulls 1 (load_csv_consume example_csv_files) example_load_csv)) [])
       = Some [(None, [''b''])]
   \<and> map_option fst (consume_all (load_csv_consume example_csv_files)
         (load_csv_reset (pulls 2 (load_csv_consume example_csv_files) example_load_csv)) [])
       = Some []"
  by (simp add: example_load_csv_def example_csv_files_def LoadCSVInit_def NewLoadCSVOp_def
      compute_path_def Init_CSVReader_def CSVReader_New_def Let_def SI_NullVal_def
      consume_all.simps load_csv_consume_def LoadCSVConsume_def CSV_GetRow_def
      load_csv_reset_def numeral_2_eq_2)

section \<open>Properties of the snapshot decoder\<close>

lemma load_payloads_known:
  assumes "\<forall>p\<in>set ps. payload_state p \<noteq> ENCODE_STATE_OTHER"
  shows "\<exists>dg'. load_payloads dg ps = Some dg'
           \<and> policy_log dg' = policy_log dg @ replicate (length (filter entity_payload ps)) SYNC_POLICY_NOP
           \<and> label_type_count dg' = label_type_count dg
           \<and> relation_type_count dg' = relation_type_count dg"
  using assms
proof (induction ps arbitrary: dg)
  case Nil
  then show ?case by simp
next
  case (Cons p ps)
  have rest: "\<forall>p\<in>set ps. payload_state p \<noteq> ENCODE_STATE_OTHER" using Cons.prems by simp
  show ?case
  proof (cases "entity_payload p")
    case True
    let ?dg1 = "load_entities (Graph_SetMatrixPolicy dg SYNC_POLICY_NOP) (entities_count p)"
    have step: "load_payloads dg (p # ps) = load_payloads ?dg1 ps"
      using True by (auto simp: entity_payload_def)
    from Cons.IH[OF rest, of ?dg1] obtain dg' where
      "load_payloads ?dg1 ps = Some dg'"
      "policy_log dg' = policy_log ?dg1 @ replicate (length (filter entity_payload ps)) SYNC_POLICY_NOP"
      "label_type_count dg' = label_type_count ?dg1" "relation_type_count dg' = relation_type_count ?dg1"
      by blast
    then show ?thesis unfolding step using True
      by (simp add: load_entities_def Graph_SetMatrixPolicy_def replicate_app_Cons_same)
  next
    case False
    have step: "load_payloads dg (p # ps) = load_payloads dg ps"
      using False Cons.prems by (cases "payload_state p") (auto simp: entity_payload_def)
    from Cons.IH[OF rest, of dg] show ?thesis unfolding step using False by simp
  qed
qed

lemma enable_indices_result:
  assumes "\<forall>i\<in>set ids. i < length schemas" "distinct ids"
  shows "\<exists>schemas'. enable_indices ids schemas = Some schemas' \<and> length schemas' = length schemas
           \<and> (\<forall>i<length schemas. schemas' ! i = (if i \<in> set ids then enable_schema (schemas ! i) else schemas ! i))"
  using assms
proof (induction ids arbitrary: schemas)
  case Nil
  then show ?case by simp
next
  case (Cons j ids)
  let ?s1 = "schemas[j := enable_schema (schemas ! j)]"
  have j: "j < length schemas" using Cons.prems(1) by simp
  have "\<forall>i\<in>set ids. i < length ?s1" using Cons.prems(1) by simp
  from Cons.IH[OF this] Cons.prems(2) obtain schemas' where
    r: "enable_indices ids ?s1 = Some schemas'" "length schemas' = length ?s1"
       "\<forall>i<length ?s1. schemas' ! i = (if i \<in> set ids then enable_schema (?s1 ! i) else ?s1 ! i)"
    by auto
  have "enable_indices (j # ids) schemas = Some schemas'" using j r(1) by simp
  moreover have "\<forall>i<length schemas. schemas' ! i = (if i \<in> set (j # ids) then enable_schema (schemas ! i) else schemas ! i)"
  proof (intro allI impI)
    fix i assume i: "i < length schemas"
    show "schemas' ! i = (if i \<in> set (j # ids) then enable_schema (schemas ! i) else schemas ! i)"
    proof (cases "i = j")
      case True
      then have "i \<notin> set ids" using Cons.prems(2) by simp
      then show ?thesis using r(3) i True by simp
    next
      case False
      then show ?thesis using r(3) i by simp
    qed
  qed
  ultimately show ?case using r(2) by simp
qed

lemma enable_schema_result:
  "pending_idx (enable_schema sch) = None
   \<and> active_idx (enable_schema sch)
       = (case pending_idx sch of None \<Rightarrow> active_idx sch | Some idx \<Rightarrow> Some (Index_Enable idx))"
  by (simp add: enable_schema_def PENDING_IDX_def Schema_ActivateIndex_def split: option.splits)

lemma enable_upto:
  assumes "n \<le> length schemas"
  shows "\<exists>schemas'. enable_indices [0..<n] schemas = Some schemas' \<and> length schemas' = length schemas
           \<and> (\<forall>i<n. pending_idx (schemas' ! i) = None
                  \<and> active_idx (schemas' ! i)
                      = (case pending_idx (schemas ! i) of None \<Rightarrow> active_idx (schemas ! i)
                         | Some idx \<Rightarrow> Some (Index_Enable idx)))"
proof -
  have "\<forall>i\<in>set [0..<n]. i < length schemas" using assms by simp
  from enable_indices_result[OF this distinct_upt] obtain schemas' where
    r: "enable_indices [0..<n] schemas = Some schemas'" "length schemas' = length schemas"
       "\<forall>i<length schemas. schemas' ! i = (if i \<in> set [0..<n] then enable_schema (schemas ! i) else schemas ! i)"
    by blast
  have "\<forall>i<n. schemas' ! i = enable_schema (schemas ! i)" using r(3) assms by simp
  then show ?thesis using r(1,2) enable_schema_result by auto
qed

lemma example_header:
  "DecodeHeader None example_vkey =
     \<lparr>graph_name = ''G'',
      gc_graph = \<lparr>matrix_policy = SYNC_POLICY_RESIZE, matrices_pending = False,
                  node_labels_set = False, label_type_count = 1, relation_type_count = 0,
                  entities_loaded = 0, policy_log = []\<rparr>,
      node_schemas = key_node_schemas example_vkey, edge_schemas = [],
      decoding_context = \<lparr>keys_processed = 0, graph_keys_count = 1, meta_keys = [],
                           ctx_multi_edge = Some []\<rparr>\<rparr>"
  by (simp add: DecodeHeader_def GetOrCreateGraphContext_def GraphContext_New_def
      GraphDecodeContext_New_def example_vkey_def Let_def Graph_SetMatrixPolicy_def
      InitGraphDataStructure_def Graph_ApplyAllPending_def)

text \<open>
  Claim C4 as stated fails: decoding a new graph from one key with a payload of nodes and
  a payload of edges loads both under the policy \<open>SYNC_POLICY_NOP\<close>, which the
  decoder sets before each of them, not under \<open>SYNC_POLICY_RESIZE\<close>.
\<close>

theorem decode_policy_counterexample:
  "map_option (\<lambda>gc. policy_log (gc_graph gc)) (RdbLoadGraphContext_v13 None example_vkey)
     = Some [SYNC_POLICY_NOP, SYNC_POLICY_NOP]"
  by (simp add: RdbLoadGraphContext_v13_def DecodeHeader_def GetOrCreateGraphContext_def
      GraphContext_New_def GraphDecodeContext_New_def example_vkey_def Let_def
      Graph_SetMatrixPolicy_def InitGraphDataStructure_def Graph_ApplyAllPending_def
      load_entities_def GraphDecodeContext_Finished_def Serializer_Graph_SetNodeLabels_def
      enable_schema_def PENDING_IDX_def Schema_ActivateIndex_def Index_Enable_def
      Graph_Pending_def GraphDecodeContext_Reset_def)

text \<open>
  Claim C4, amended. A graph context the decoder creates starts with the policy
  \<open>SYNC_POLICY_RESIZE\<close>; every payload of nodes or edges is loaded under
  \<open>SYNC_POLICY_NOP\<close>, which the decoder sets before loading it. When the key is
  the last one, the decoder returns a context in which the node-label matrix is set, no
  matrix has pending changes, the policy is \<open>SYNC_POLICY_FLUSH_RESIZE\<close>, every
  node and edge schema has no pending index left and the index that was pending is
  enabled and active, and the decoding context is reset. This holds for keys whose
  payload tags the decoder knows and for graphs that have a schema for every label and
  relation type.
\<close>

theorem decode_policy_and_finalize:
  assumes "\<forall>p\<in>set (key_schema key). payload_state p \<noteq> ENCODE_STATE_OTHER"
    and "gc0 = DecodeHeader registered key"
    and "label_type_count (gc_graph gc0) \<le> length (node_schemas gc0)"
    and "relation_type_count (gc_graph gc0) \<le> length (edge_schemas gc0)"
  shows "(registered = None \<longrightarrow> matrix_policy (gc_graph gc0) = SYNC_POLICY_RESIZE)
     \<and> (\<exists>gc'. RdbLoadGraphContext_v13 registered key = Some gc'
          \<and> policy_log (gc_graph gc')
              = policy_log (gc_graph gc0)
                @ replicate (length (filter entity_payload (key_schema key))) SYNC_POLICY_NOP
          \<and> (keys_processed (decoding_context gc0) + 1 = graph_keys_count (decoding_context gc0) \<longrightarrow>
               node_labels_set (gc_graph gc') \<and> \<not> Graph_Pending (gc_graph gc')
               \<and> matrix_policy (gc_graph gc') = SYNC_POLICY_FLUSH_RESIZE
               \<and> (\<forall>i<label_type_count (gc_graph gc').
                     pending_idx (node_schemas gc' ! i) = None
                     \<and> active_idx (node_schemas gc' ! i)
                         = (case pending_idx (node_schemas gc0 ! i) of
                              None \<Rightarrow> active_idx (node_schemas gc0 ! i)
                            | Some idx \<Rightarrow> Some (Index_Enable idx)))
               \<and> (\<forall>i<relation_type_count (gc_graph gc').
                     pending_idx (edge_schemas gc' ! i) = None
                     \<and> active_idx (edge_schemas gc' ! i)
                         = (case pending_idx (edge_schemas gc0 ! i) of
                              None \<Rightarrow> active_idx (edge_schemas gc0 ! i)
                            | Some idx \<Rightarrow> Some (Index_Enable idx)))
               \<and> keys_processed (decoding_context gc') = 0
               \<and> graph_keys_count (decoding_context gc') = 1
               \<and> ctx_multi_edge (decoding_context gc') = None))"
proof -
  have pol: "registered = None \<longrightarrow> matrix_policy (gc_graph gc0) = SYNC_POLICY_RESIZE"
    unfolding assms(2)
    by (simp add: DecodeHeader_def GetOrCreateGraphContext_def GraphContext_New_def Let_def
        Graph_SetMatrixPolicy_def InitGraphDataStructure_def Graph_ApplyAllPending_def
        GraphDecodeContext_New_def)
  from load_payloads_known[OF assms(1), of "gc_graph gc0"] obtain dg where
    lp: "load_payloads (gc_graph gc0) (key_schema key) = Some dg"
    and lg: "policy_log dg = policy_log (gc_graph gc0)
                @ replicate (length (filter entity_payload (key_schema key))) SYNC_POLICY_NOP"
    and lc: "label_type_count dg = label_type_count (gc_graph gc0)"
    and rc: "relation_type_count dg = relation_type_count (gc_graph gc0)"
    by blast
  from enable_upto[OF assms(3)] obtain ns where
    ns: "enable_indices [0..<label_type_count (gc_graph gc0)] (node_schemas gc0) = Some ns"
    and nsp: "\<forall>i<label_type_count (gc_graph gc0). pending_idx (ns ! i) = None
                  \<and> active_idx (ns ! i)
                      = (case pending_idx (node_schemas gc0 ! i) of None \<Rightarrow> active_idx (node_schemas gc0 ! i)
                         | Some idx \<Rightarrow> Some (Index_Enable idx))"
    by blast
  from enable_upto[OF assms(4)] obtain es where
    es: "enable_indices [0..<relation_type_count (gc_graph gc0)] (edge_schemas gc0) = Some es"
    and esp: "\<forall>i<relation_type_count (gc_graph gc0). pending_idx (es ! i) = None
                  \<and> active_idx (es ! i)
                      = (case pending_idx (edge_schemas gc0 ! i) of None \<Rightarrow> active_idx (edge_schemas gc0 ! i)
                         | Some idx \<Rightarrow> Some (Index_Enable idx))"
    by blast
  show ?thesis
  proof (cases "keys_processed (decoding_context gc0) + 1 = graph_keys_count (decoding_context gc0)")
    case True
    show ?thesis
      using pol True lp lg lc rc ns nsp es esp assms(2)
      by (simp add: RdbLoadGraphContext_v13_def Let_def GraphDecodeContext_Finished_def
          Serializer_Graph_SetNodeLabels_def Graph_ApplyAllPending_def Graph_SetMatrixPolicy_def
          Graph_Pending_def GraphDecodeContext_Reset_def)
  next
    case False
    show ?thesis
      using pol False lp lg assms(2)
      by (simp add: RdbLoadGraphContext_v13_def Let_def GraphDecodeContext_Finished_def)
  qed
qed

theorem decode_policy_and_finalize_witness:
  "list_all (\<lambda>p. payload_state p \<noteq> ENCODE_STATE_OTHER) (key_schema example_vkey)
   \<and> label_type_count (gc_graph (DecodeHeader None example_vkey))
       \<le> length (node_schemas (DecodeHeader None example_vkey))
   \<and> relation_type_count (gc_graph (DecodeHeader None example_vkey))
       \<le> length (edge_schemas (DecodeHeader None example_vkey))
   \<and> keys_processed (decoding_context (DecodeHeader None example_vkey)) + 1
       = graph_keys_count (decoding_context (DecodeHeader None example_vkey))
   \<and> matrix_policy (gc_graph (DecodeHeader None example_vkey)) = SYNC_POLICY_RESIZE
   \<and> map_option (\<lambda>gc. policy_log (gc_graph gc)) (RdbLoadGraphContext_v13 None example_vkey)
       = Some [SYNC_POLICY_NOP, SYNC_POLICY_NOP]
   \<and> map_option (\<lambda>gc. matrix_policy (gc_graph gc)) (RdbLoadGraphContext_v13 None example_vkey)
       = Some SYNC_POLICY_FLUSH_RESIZE
   \<and> map_option (\<lambda>gc. node_labels_set (gc_graph gc)) (RdbLoadGraphContext_v13 None example_vkey)
       = Some True
   \<and> map_option (\<lambda>gc. Graph_Pending (gc_graph gc)) (RdbLoadGraphContext_v13 None example_vkey)
       = Some False
   \<and> map_option (\<lambda>gc. pending_idx (node_schemas gc ! 0)) (RdbLoadGraphContext_v13 None example_vkey)
       = Some None
   \<and> map_option (\<lambda>gc. map_option state (active_idx (node_schemas gc ! 0)))
         (RdbLoadGraphContext_v13 None example_vkey) = Some (Some IDX_ACTIVE)
   \<and> map_option (\<lambda>gc. keys_processed (decoding_context gc)) (RdbLoadGraphContext_v13 None example_vkey)
       = Some 0"
proof -
  let ?gc0 = "DecodeHeader None example_vkey"
  have a: "\<forall>p\<in>set (key_schema example_vkey). payload_state p \<noteq> ENCODE_STATE_OTHER"
    by (simp add: example_vkey_def)
  have b: "label_type_count (gc_graph ?gc0) \<le> length (node_schemas ?gc0)"
    by (simp add: example_header) (simp add: example_vkey_def)
  have c: "relation_type_count (gc_graph ?gc0) \<le> length (edge_schemas ?gc0)"
    by (simp add: example_header)
  have d: "keys_processed (decoding_context ?gc0) + 1 = graph_keys_count (decoding_context ?gc0)"
    by (simp add: example_header)
  have e: "length (filter entity_payload (key_schema example_vkey)) = 2"
    by (simp add: example_vkey_def entity_payload_def)
  have f: "policy_log (gc_graph ?gc0) = []" by (simp add: example_header)
  have g: "label_type_count (gc_graph ?gc0) = 1" by (simp add: example_header)
  have h: "pending_idx (node_schemas ?gc0 ! 0)
            = Some \<lparr>state = IDX_POPULATING, entity_type = GETYPE_NODE, label_id = 0,
                    indexed_nodes = [], indexed_edges = []\<rparr>"
    by (simp add: example_header) (simp add: example_vkey_def)
  from decode_policy_and_finalize [OF a refl b c]
  obtain gc' where r: "RdbLoadGraphContext_v13 None example_vkey = Some gc'"
    and p: "matrix_policy (gc_graph ?gc0) = SYNC_POLICY_RESIZE"
    and l: "policy_log (gc_graph gc') = [SYNC_POLICY_NOP, SYNC_POLICY_NOP]"
    and fin: "node_labels_set (gc_graph gc')" "\<not> Graph_Pending (gc_graph gc')"
       "matrix_policy (gc_graph gc') = SYNC_POLICY_FLUSH_RESIZE"
       "\<forall>i<label_type_count (gc_graph gc').
                     pending_idx (node_schemas gc' ! i) = None
                     \<and> active_idx (node_schemas gc' ! i)
                         = (case pending_idx (node_schemas ?gc0 ! i) of
                              None \<Rightarrow> active_idx (node_schemas ?gc0 ! i)
                            | Some idx \<Rightarrow> Some (Index_Enable idx))"
       "keys_processed (decoding_context gc') = 0"
    using d e f by (auto simp: numeral_2_eq_2)
  have lt: "label_type_count (gc_graph gc') = 1"
    using r g
    by (auto simp: RdbLoadGraphContext_v13_def Let_def Graph_SetMatrixPolicy_def
        Graph_ApplyAllPending_def Serializer_Graph_SetNodeLabels_def example_header
        example_vkey_def load_entities_def GraphDecodeContext_Finished_def
        split: option.splits if_splits)
  from fin(4) lt have s0: "pending_idx (node_schemas gc' ! 0) = None"
    "active_idx (node_schemas gc' ! 0) = Some (Index_Enable \<lparr>state = IDX_POPULATING, entity_type = GETYPE_NODE, label_id = 0,
                    indexed_nodes = [], indexed_edges = []\<rparr>)"
    using h by simp_all
  show ?thesis
    using a b c d p l fin(1,2,3,5) s0 r
    by (simp add: list_all_iff Index_Enable_def)
qed

section \<open>Encoding edges in payloads\<close>

lemma saved_edge_written:
  "RdbSaveEdge rdb (Graph_GetEdge g e \<lparr>entity_id = 0, srcNodeID = s, destNodeID = d, relationID = 0\<rparr>) r
     = rdb @ [saved_edge r s d e]"
  by (simp add: RdbSaveEdge_def Graph_GetEdge_def saved_edge_def)

lemma fetch_success:
  "next_relation_loop g (GrB_SUCCESS, t, r, it) = Fetched GrB_SUCCESS t r it"
  by (simp add: next_relation_loop.simps)

lemma next_cons:
  "A it = Some M \<Longrightarrow> rest it = t # ts \<Longrightarrow>
     RG_MatrixTupleIter_next it = (GrB_SUCCESS, Some t, it\<lparr>rest := ts\<rparr>)"
  by (simp add: RG_MatrixTupleIter_next_def)

lemma next_nil:
  "A it = Some M \<Longrightarrow> rest it = [] \<Longrightarrow> RG_MatrixTupleIter_next it = (GxB_EXHAUSTED, None, it)"
  by (simp add: RG_MatrixTupleIter_next_def)

lemma save_multiple_step:
  "i < length arr \<Longrightarrow> c < e2e \<Longrightarrow>
     save_multiple_loop g r arr e2e src dest (i, c, rdb)
       = save_multiple_loop g r arr e2e src dest
           (Suc i, Suc c mod 2 ^ 32, rdb @ [saved_edge r src dest (arr ! i)])"
  by (subst save_multiple_loop.simps) (simp add: saved_edge_written)

lemma save_multiple_stop:
  "\<not> (i < length arr \<and> c < e2e) \<Longrightarrow>
     save_multiple_loop g r arr e2e src dest (i, c, rdb) = (i, c, rdb)"
  by (subst save_multiple_loop.simps) auto

subsection \<open>Calls of fewer than \<open>2 ^ 32\<close> edges\<close>

text \<open>
  While the call's capacity is below \<open>2 ^ 32\<close> the 32-bit count of
  \<^verbatim>\<open>_RdbSaveMultipleEdges\<close> never wraps: the helper writes the next edges of the
  array, as many as the array and the capacity allow.
\<close>

lemma save_multiple_closed:
  assumes "c \<le> e2e" and "e2e < 2 ^ 32"
  shows "save_multiple_loop g r arr e2e src dest (i, c, rdb)
           = (i + min (length arr - i) (e2e - c), c + min (length arr - i) (e2e - c),
              rdb @ map (saved_edge r src dest) (take (min (length arr - i) (e2e - c)) (drop i arr)))"
  using assms(1)
proof (induction "length arr - i" arbitrary: i c rdb)
  case 0
  then show ?case by (simp add: save_multiple_stop)
next
  case (Suc n)
  then have i: "i < length arr" by simp
  show ?case
  proof (cases "c < e2e")
    case False
    then show ?thesis using Suc.prems by (simp add: save_multiple_stop)
  next
    case True
    have m: "Suc c mod 2 ^ 32 = Suc c" using True assms(2) by simp
    have n: "n = length arr - Suc i" using Suc.hyps(2) by simp
    have mn: "min (length arr - i) (e2e - c) = Suc (min (length arr - Suc i) (e2e - Suc c))"
      using i True by simp
    have tk: "take (Suc k) (drop i arr) = arr ! i # take k (drop (Suc i) arr)" for k
      using i by (simp add: Cons_nth_drop_Suc[symmetric])
    have step: "save_multiple_loop g r arr e2e src dest (i, c, rdb)
        = save_multiple_loop g r arr e2e src dest
            (Suc i, Suc c, rdb @ [saved_edge r src dest (arr ! i)])"
      using save_multiple_step[OF i True, of g r src dest rdb] m by simp
    show ?thesis
      using Suc.hyps(1)[OF n, of "Suc c"] True
      by (simp add: step mn tk)
  qed
qed

lemma graph_edges_from_unfold:
  "r < length (relations g) \<Longrightarrow>
     graph_edges_from g r = matrix_edges r (tuples (relations g ! r)) @ graph_edges_from g (Suc r)"
  by (simp add: graph_edges_from_def upt_conv_Cons)

lemma graph_edges_from_end: "length (relations g) \<le> r \<Longrightarrow> graph_edges_from g r = []"
  by (simp add: graph_edges_from_def)

lemma next_relation_spec:
  assumes "r < length (relations g)"
  shows "case next_relation_loop g (GxB_EXHAUSTED, t, r, it) of
           Goto_finish r' it' \<Rightarrow> graph_edges_from g (Suc r) = []
         | Assert_failed \<Rightarrow> False
         | Fetched i t' r' it' \<Rightarrow>
             i = GrB_SUCCESS \<and> r' < length (relations g) \<and> A it' = Some (relations g ! r')
             \<and> (\<exists>tup. t' = Some tup
                  \<and> graph_edges_from g (Suc r)
                      = matrix_edges r' (tup # rest it') @ graph_edges_from g (Suc r'))"
  using assms
proof (induction "length (relations g) - r" arbitrary: r t it)
  case 0
  then show ?case by simp
next
  case (Suc n)
  show ?case
  proof (cases "Suc r = length (relations g)")
    case True
    then show ?thesis
      by (simp add: next_relation_loop.simps Graph_RelationTypeCount_def graph_edges_from_end)
  next
    case False
    then have lt: "Suc r < length (relations g)" using Suc.prems by simp
    let ?M = "relations g ! Suc r"
    have n: "n = length (relations g) - Suc r" using Suc.hyps(2) by simp
    show ?thesis
    proof (cases "tuples ?M")
      case Nil
      have "next_relation_loop g (GxB_EXHAUSTED, t, r, it)
          = next_relation_loop g (GxB_EXHAUSTED, None, Suc r, RG_MatrixTupleIter_attach it ?M)"
        using False lt Nil
        by (subst next_relation_loop.simps)
           (simp add: Graph_RelationTypeCount_def Graph_GetRelationMatrix_def
             RG_MatrixTupleIter_next_def RG_MatrixTupleIter_attach_def)
      moreover have "graph_edges_from g (Suc r) = graph_edges_from g (Suc (Suc r))"
        using lt Nil by (simp add: graph_edges_from_unfold matrix_edges_def)
      ultimately show ?thesis
        using Suc.hyps(1)[OF n lt, of None "RG_MatrixTupleIter_attach it ?M"]
        by (simp split: fetch.splits)
    next
      case (Cons tup ts)
      have "next_relation_loop g (GxB_EXHAUSTED, t, r, it)
          = Fetched GrB_SUCCESS (Some tup) (Suc r) \<lparr>A = Some ?M, rest = ts\<rparr>"
        using False lt Cons
        by (subst next_relation_loop.simps)
           (simp add: Graph_RelationTypeCount_def Graph_GetRelationMatrix_def
             RG_MatrixTupleIter_next_def RG_MatrixTupleIter_attach_def fetch_success)
      then show ?thesis using lt Cons by (cases tup) (simp add: graph_edges_from_unfold)
    qed
  qed
qed

lemma matrix_edges_Cons:
  "matrix_edges r ((s, d, slot) # ts) = map (saved_edge r s d) (slot_edge_ids slot) @ matrix_edges r ts"
  by (simp add: matrix_edges_def)

text \<open>What the two reads of one iteration of the main loop fetch.\<close>

lemma fetch_spec:
  assumes "r < length (relations g)" and "A it = Some (relations g ! r)"
    and "RG_MatrixTupleIter_next it = (info, t, it1)"
    and "pending_edges g r it \<noteq> []"
  shows "\<exists>s d slot r' it'.
           next_relation_loop g (info, t, r, it1) = Fetched GrB_SUCCESS (Some (s, d, slot)) r' it'
           \<and> r' < length (relations g) \<and> A it' = Some (relations g ! r')
           \<and> pending_edges g r it
               = map (saved_edge r' s d) (slot_edge_ids slot) @ pending_edges g r' it'"
proof (cases "rest it")
  case Nil
  then have nx: "info = GxB_EXHAUSTED" "it1 = it"
    using assms(2,3) by (simp_all add: RG_MatrixTupleIter_next_def)
  have ne: "graph_edges_from g (Suc r) \<noteq> []"
    using assms(4) Nil by (simp add: pending_edges_def matrix_edges_def)
  show ?thesis
  proof (cases "next_relation_loop g (GxB_EXHAUSTED, t, r, it)")
    case (Goto_finish r' it')
    then show ?thesis using next_relation_spec[OF assms(1), of t it] ne by simp
  next
    case Assert_failed
    then show ?thesis using next_relation_spec[OF assms(1), of t it] by simp
  next
    case (Fetched i t' r' it')
    with next_relation_spec[OF assms(1), of t it]
    obtain tup where f: "i = GrB_SUCCESS" "r' < length (relations g)"
      "A it' = Some (relations g ! r')" "t' = Some tup"
      "graph_edges_from g (Suc r) = matrix_edges r' (tup # rest it') @ graph_edges_from g (Suc r')"
      by auto
    obtain s d slot where tup: "tup = (s, d, slot)" by (cases tup) auto
    show ?thesis
      using Fetched f Nil nx
      by (simp add: tup pending_edges_def matrix_edges_Cons) (simp add: matrix_edges_def)
  qed
next
  case (Cons tup ts)
  obtain s d slot where tup: "tup = (s, d, slot)" by (cases tup) auto
  have nx: "info = GrB_SUCCESS" "t = Some tup" "it1 = it\<lparr>rest := ts\<rparr>"
    using assms(2,3) Cons by (simp_all add: RG_MatrixTupleIter_next_def)
  show ?thesis
    using assms(1,2) Cons
    by (simp add: nx tup fetch_success pending_edges_def matrix_edges_Cons)
qed

text \<open>
  The main loop, entered with no array saved, writes the next \<open>e2e - enc\<close> pending
  edges and stops on a position from which the rest is pending.
\<close>

lemma save_edges_loop_spec:
  "r < length (relations g) \<Longrightarrow> A it = Some (relations g ! r) \<Longrightarrow> arr = None \<Longrightarrow> idx = 0 \<Longrightarrow>
   enc \<le> e2e \<Longrightarrow> e2e < 2 ^ 32 \<Longrightarrow> e2e - enc \<le> length (pending_edges g r it) \<Longrightarrow>
   \<exists>r' it' src' dest' arr' idx'.
      save_edges_loop g e2e (r, it, src, dest, arr, idx, enc, rdb)
        = Some (r', it', src', dest', arr', idx', e2e,
                rdb @ take (e2e - enc) (pending_edges g r it))
      \<and> r' < length (relations g) \<and> A it' = Some (relations g ! r')
      \<and> (arr' = None \<longrightarrow> idx' = 0)
      \<and> drop (e2e - enc) (pending_edges g r it)
          = array_edges r' src' dest' arr' idx' @ pending_edges g r' it'"
proof (induction g e2e "(r, it, src, dest, arr, idx, enc, rdb)"
    arbitrary: r it src dest arr idx enc rdb rule: save_edges_loop.induct)
  case (1 g e2e r it src dest arr idx enc rdb)
  note IH_single = "1.hyps"(1) and IH_multi = "1.hyps"(2)
  note r = "1.prems"(1) and A = "1.prems"(2) and arr = "1.prems"(3) and idx = "1.prems"(4)
    and le = "1.prems"(5) and bound = "1.prems"(6) and avail = "1.prems"(7)
  show ?case
  proof (cases "enc < e2e")
    case False
    then have "enc = e2e" using le by simp
    then show ?thesis
      using r A arr idx by (subst save_edges_loop.simps) (simp add: array_edges_def)
  next
    case True
    then have ne: "pending_edges g r it \<noteq> []" using avail by auto
    obtain info t it1 where nx: "RG_MatrixTupleIter_next it = (info, t, it1)"
      by (cases "RG_MatrixTupleIter_next it") auto
    from fetch_spec[OF r A nx ne]
    obtain s d slot r' it' where
      F: "next_relation_loop g (info, t, r, it1) = Fetched GrB_SUCCESS (Some (s, d, slot)) r' it'"
      and r': "r' < length (relations g)" and A': "A it' = Some (relations g ! r')"
      and P: "pending_edges g r it
               = map (saved_edge r' s d) (slot_edge_ids slot) @ pending_edges g r' it'"
      by blast
    show ?thesis
    proof (cases slot)
      case (Single e)
      have unf: "save_edges_loop g e2e (r, it, src, dest, arr, idx, enc, rdb)
          = save_edges_loop g e2e (r', it', s, d, arr, idx, enc + 1, rdb @ [saved_edge r' s d e])"
        using True by (subst save_edges_loop.simps) (simp add: nx F Single saved_edge_written)
      have P': "pending_edges g r it = saved_edge r' s d e # pending_edges g r' it'"
        using P Single by (simp add: slot_edge_ids_def)
      have av: "e2e - (enc + 1) \<le> length (pending_edges g r' it')"
        using avail P' by simp
      have k: "e2e - enc = Suc (e2e - (enc + 1))" using True by simp
      from IH_single[OF True nx[symmetric] refl F _ refl refl refl, of e, OF _ Single,
          unfolded saved_edge_written, OF _ r' A' arr idx _ bound av]
      show ?thesis using True unfolding unf P' k by simp
    next
      case (Multi es)
      let ?m = "min (length es) (e2e - enc)"
      have "enc mod 2 ^ 32 = enc" using True bound by simp
      then have sm: "RdbSaveMultipleEdges rdb g r' es idx enc e2e s d
          = (?m, enc + ?m, rdb @ map (saved_edge r' s d) (take ?m es))"
        using save_multiple_closed[OF le bound, of g r' es s d 0 rdb] idx
        by (simp add: RdbSaveMultipleEdges_def)
      have P': "pending_edges g r it = map (saved_edge r' s d) es @ pending_edges g r' it'"
        using P Multi by (simp add: slot_edge_ids_def)
      show ?thesis
      proof (cases "enc + ?m = e2e")
        case fin: True
        then have m: "?m = e2e - enc" "e2e - enc \<le> length es" by auto
        have unf: "save_edges_loop g e2e (r, it, src, dest, arr, idx, enc, rdb)
            = Some (r', it', s, d, Some es, ?m, e2e, rdb @ map (saved_edge r' s d) (take ?m es))"
          using True fin by (subst save_edges_loop.simps) (simp add: nx F Multi sm)
        show ?thesis
          unfolding unf P' m(1)
          using r' A' m(2) by (simp add: array_edges_def take_map drop_map)
      next
        case more: False
        then have m: "?m = length es" "enc + length es < e2e" using True by auto
        have unf: "save_edges_loop g e2e (r, it, src, dest, arr, idx, enc, rdb)
            = save_edges_loop g e2e (r', it', s, d, None, 0, enc + length es,
                rdb @ map (saved_edge r' s d) es)"
          using True more by (subst save_edges_loop.simps) (simp add: nx F Multi sm m(1))
        have av: "e2e - (enc + length es) \<le> length (pending_edges g r' it')"
          using avail P' by simp
        have k: "e2e - enc = length es + (e2e - (enc + length es))" using m(2) by simp
        have sm': "(length es, enc + length es, rdb @ map (saved_edge r' s d) es)
            = RdbSaveMultipleEdges rdb g r' es idx enc e2e s d"
          using sm m(1) by simp
        from IH_multi[OF True nx[symmetric] refl F _ refl refl refl Multi sm' refl _
            r' A' refl refl _ bound av]
        show ?thesis using m(2) unfolding unf P' k by simp
      qed
    qed
  qed
qed

text \<open>One call writes the next \<open>k\<close> pending edges and re-establishes the invariant.\<close>

lemma save_edges_call:
  assumes inv: "enc_inv g ctx P" and k: "0 < k" "k < 2 ^ 32" "k \<le> length P"
  shows "\<exists>ctx'. RdbSaveEdges_v14 rdb g ctx k = Some (rdb @ take k P, ctx')
           \<and> enc_inv g (ctx'\<lparr>enc_offset := enc_offset ctx' + k\<rparr>) (drop k P)"
proof -
  define r where "r = current_relation_matrix_id ctx"
  define M where "M = relations g ! r"
  define it0 where "it0 = matrix_tuple_iterator ctx"
  define it where "it = (if \<not> RG_MatrixTupleIter_is_attached it0 M
                          then RG_MatrixTupleIter_attach it0 M else it0)"
  define src where "src = multiple_edges_src_id ctx"
  define dest where "dest = multiple_edges_dest_id ctx"
  define arr where "arr = multiple_edges_array ctx"
  define idx where "idx = multiple_edges_current_index ctx"
  have ne: "P \<noteq> []" using k by auto
  have off: "enc_offset ctx + length P = Graph_EdgeCount g"
    and idx0: "arr = None \<longrightarrow> idx = 0"
    and r: "r < length (relations g)"
    and P: "P = array_edges r src dest arr idx @ pending_edges g r it"
    using inv ne
    by (auto simp: enc_inv_def r_def M_def it0_def it_def src_def dest_def arr_def idx_def)
  have A: "A it = Some (relations g ! r)"
    by (simp add: it_def M_def RG_MatrixTupleIter_is_attached_def RG_MatrixTupleIter_attach_def)
  have get: "Graph_GetRelationMatrix g r = Some M"
    using r by (simp add: Graph_GetRelationMatrix_def M_def)
  define inner where "inner =
     (case (case arr of
              None \<Rightarrow> (None, idx, 0, rdb, False)
            | Some es \<Rightarrow>
                (case RdbSaveMultipleEdges rdb g r es idx 0 k src dest of
                   (idx', encoded', rdb') \<Rightarrow>
                     if encoded' = k then (Some es, idx', encoded', rdb', True)
                     else (None, 0, encoded', rdb', False))) of
        (arr1, idx1, encoded1, rdb1, finished) \<Rightarrow>
          (if finished then Some (r, it, src, dest, arr1, idx1, encoded1, rdb1)
           else save_edges_loop g k (r, it, src, dest, arr1, idx1, encoded1, rdb1)))"
  have call: "RdbSaveEdges_v14 rdb g ctx k =
     (case inner of
        None \<Rightarrow> None
      | Some (r2, it2, src2, dest2, arr2, idx2, encoded2, rdb2) \<Rightarrow>
          Some (rdb2,
                ctx\<lparr>current_relation_matrix_id := r2,
                    matrix_tuple_iterator :=
                      (if enc_offset ctx + k = Graph_EdgeCount g
                       then RG_MatrixTupleIter_detach it2 else it2),
                    multiple_edges_array := arr2,
                    multiple_edges_current_index := idx2,
                    multiple_edges_src_id := src2,
                    multiple_edges_dest_id := dest2\<rparr>))"
    using k(1) get[unfolded r_def]
    unfolding RdbSaveEdges_v14_def Let_def inner_def r_def it_def M_def it0_def src_def dest_def
      arr_def idx_def
    by (simp split: option.split prod.split)
  have res: "\<exists>r' it' src' dest' arr' idx'.
      inner = Some (r', it', src', dest', arr', idx', k, rdb @ take k P)
      \<and> r' < length (relations g) \<and> A it' = Some (relations g ! r')
      \<and> (arr' = None \<longrightarrow> idx' = 0)
      \<and> drop k P = array_edges r' src' dest' arr' idx' @ pending_edges g r' it'"
  proof (cases arr)
    case None
    then have P': "P = pending_edges g r it" and i0: "idx = 0"
      using P idx0 by (simp_all add: array_edges_def)
    have in_eq: "inner = save_edges_loop g k (r, it, src, dest, None, 0, 0, rdb)"
      by (simp add: inner_def None i0)
    from save_edges_loop_spec[OF r A refl refl _ k(2), of 0 src dest rdb] k(3)
    show ?thesis unfolding in_eq P' by simp
  next
    case (Some es)
    let ?m = "min (length es - idx) k"
    have sm: "RdbSaveMultipleEdges rdb g r es idx 0 k src dest
        = (idx + ?m, ?m, rdb @ map (saved_edge r src dest) (take ?m (drop idx es)))"
      using save_multiple_closed[OF _ k(2), of 0 g r es src dest idx rdb]
      by (simp add: RdbSaveMultipleEdges_def)
    have P': "P = map (saved_edge r src dest) (drop idx es) @ pending_edges g r it"
      using P Some by (simp add: array_edges_def)
    show ?thesis
    proof (cases "?m = k")
      case True
      then have le: "k \<le> length es - idx" by simp
      have in_eq: "inner = Some (r, it, src, dest, Some es, idx + k, k,
          rdb @ map (saved_edge r src dest) (take k (drop idx es)))"
        using True by (simp add: inner_def Some sm)
      show ?thesis
        unfolding in_eq P' using r A le
        by (simp add: array_edges_def take_map drop_map add.commute)
    next
      case False
      then have m: "?m = length es - idx" "length es - idx < k" by auto
      have in_eq: "inner = save_edges_loop g k (r, it, src, dest, None, 0, length es - idx,
          rdb @ map (saved_edge r src dest) (drop idx es))"
        using False by (simp add: inner_def Some sm m(1))
      have av: "k - (length es - idx) \<le> length (pending_edges g r it)"
        using k(3) P' by simp
      have kk: "k = (length es - idx) + (k - (length es - idx))" using m(2) by simp
      from save_edges_loop_spec[OF r A refl refl _ k(2) av, of src dest
          "rdb @ map (saved_edge r src dest) (drop idx es)"] m(2)
      have "\<exists>r' it' src' dest' arr' idx'.
          inner = Some (r', it', src', dest', arr', idx', k,
             (rdb @ map (saved_edge r src dest) (drop idx es))
               @ take (k - (length es - idx)) (pending_edges g r it))
          \<and> r' < length (relations g) \<and> A it' = Some (relations g ! r')
          \<and> (arr' = None \<longrightarrow> idx' = 0)
          \<and> drop (k - (length es - idx)) (pending_edges g r it)
               = array_edges r' src' dest' arr' idx' @ pending_edges g r' it'"
        unfolding in_eq by simp
      moreover have "take k P = map (saved_edge r src dest) (drop idx es)
            @ take (k - (length es - idx)) (pending_edges g r it)"
        unfolding P' using m(2) by simp
      moreover have "drop k P = drop (k - (length es - idx)) (pending_edges g r it)"
        unfolding P' using m(2) by simp
      ultimately show ?thesis by simp
    qed
  qed
  then obtain r' it' src' dest' arr' idx' where
    in_eq: "inner = Some (r', it', src', dest', arr', idx', k, rdb @ take k P)"
    and r': "r' < length (relations g)" and A': "A it' = Some (relations g ! r')"
    and idx': "arr' = None \<longrightarrow> idx' = 0"
    and D: "drop k P = array_edges r' src' dest' arr' idx' @ pending_edges g r' it'"
    by blast
  have nd: "drop k P \<noteq> [] \<Longrightarrow> enc_offset ctx + k \<noteq> Graph_EdgeCount g"
    using off by auto
  have len: "enc_offset ctx + k + length (drop k P) = Graph_EdgeCount g"
    using off k(3) by simp
  show ?thesis
    unfolding call in_eq
    using len r' A' idx' D[symmetric] nd
    by (simp add: enc_inv_def RG_MatrixTupleIter_is_attached_def)
qed

text \<open>
  A sequence of calls of positive capacities below \<open>2 ^ 32\<close> that sum to the
  graph's edge count succeeds, the \<open>j\<close>-th call writes exactly its capacity, and the
  calls together write the edges of the graph once each, in the order of
  \<open>graph_edges_from\<close>.
\<close>

lemma enc_inv_new: "enc_inv g GraphEncodeContext_New (graph_edges_from g 0)"
proof -
  have "relations g \<noteq> []" if "graph_edges_from g 0 \<noteq> []"
    using that by (auto simp: graph_edges_from_def)
  then show ?thesis
    by (auto simp: enc_inv_def GraphEncodeContext_New_def Graph_EdgeCount_def array_edges_def
        pending_edges_def RG_MatrixTupleIter_is_attached_def detached_iter_def
        RG_MatrixTupleIter_attach_def graph_edges_from_unfold)
qed

lemma save_edges_calls_spec:
  "enc_inv g ctx P \<Longrightarrow> list_all (\<lambda>k. 0 < k \<and> k < 2 ^ 32) ks \<Longrightarrow> sum_list ks = length P \<Longrightarrow>
     \<exists>outs ctx'. save_edges_calls g ctx ks = Some (outs, ctx')
        \<and> map length outs = ks \<and> concat outs = P"
proof (induction ks arbitrary: ctx P)
  case Nil
  then show ?case by simp
next
  case (Cons k ks)
  then have k: "0 < k" "k < 2 ^ 32" "k \<le> length P" by auto
  from save_edges_call[OF Cons.prems(1) k, of "[]"]
  obtain ctx1 where c: "RdbSaveEdges_v14 [] g ctx k = Some (take k P, ctx1)"
    and i: "enc_inv g (ctx1\<lparr>enc_offset := enc_offset ctx1 + k\<rparr>) (drop k P)"
    by auto
  have "list_all (\<lambda>k. 0 < k \<and> k < 2 ^ 32) ks" "sum_list ks = length (drop k P)"
    using Cons.prems by auto
  from Cons.IH[OF i this]
  obtain outs ctx' where
    "save_edges_calls g (ctx1\<lparr>enc_offset := enc_offset ctx1 + k\<rparr>) ks = Some (outs, ctx')"
    "map length outs = ks" "concat outs = drop k P"
    by auto
  then show ?case using c k(3) by simp
qed

lemma save_edges_chunks:
  assumes "list_all (\<lambda>k. 0 < k \<and> k < 2 ^ 32) ks" and "sum_list ks = Graph_EdgeCount g"
  shows "\<exists>outs ctx'. save_edges_calls g GraphEncodeContext_New ks = Some (outs, ctx')
           \<and> map length outs = ks \<and> concat outs = graph_edges_from g 0"
  using save_edges_calls_spec[OF enc_inv_new assms(1)] assms(2)
  by (simp add: Graph_EdgeCount_def)

lemma example_multi_edges:
  "graph_edges_from example_multi_graph 0
     = [saved_edge 0 0 1 0, saved_edge 1 0 2 1, saved_edge 1 0 2 2, saved_edge 1 0 2 3,
        saved_edge 1 2 0 4]"
  by (simp add: graph_edges_from_def example_multi_graph_def matrix_edges_def slot_edge_ids_def
      upt_conv_Cons)

lemma save_edges_chunks_example:
  "\<exists>outs ctx'. save_edges_calls example_multi_graph GraphEncodeContext_New [2, 1, 2] = Some (outs, ctx')
     \<and> map length outs = [2, 1, 2]
     \<and> concat outs = [saved_edge 0 0 1 0, saved_edge 1 0 2 1, saved_edge 1 0 2 2,
          saved_edge 1 0 2 3, saved_edge 1 2 0 4]"
  using save_edges_chunks[of "[2, 1, 2]" example_multi_graph]
  by (simp add: Graph_EdgeCount_def example_multi_edges)

text \<open>
  For row-major matrices that order is ascending in the relation id and, within a
  relation, in the position (source, destination).
\<close>

lemma matrix_edges_member:
  "e \<in> set (matrix_edges r ts) \<Longrightarrow>
     relationID e = r \<and> (\<exists>t\<in>set ts. (srcNodeID e, destNodeID e) = position t)"
  apply (auto simp: matrix_edges_def saved_edge_def position_def)
  subgoal for a aa b x by (rule bexI[of _ "(a, aa, b)"]) auto
  done

lemma matrix_edges_sorted:
  "sorted_wrt (\<lambda>s t. position s < position t) ts \<Longrightarrow>
     sorted_wrt (\<lambda>a b. (relationID a, srcNodeID a, destNodeID a)
                       \<le> (relationID b, srcNodeID b, destNodeID b)) (matrix_edges r ts)"
proof (induction ts)
  case Nil
  then show ?case by (simp add: matrix_edges_def)
next
  case (Cons t ts)
  obtain s d slot where t: "t = (s, d, slot)" by (cases t) auto
  have same: "sorted_wrt (\<lambda>a b. (relationID a, srcNodeID a, destNodeID a)
                       \<le> (relationID b, srcNodeID b, destNodeID b))
        (map (saved_edge r s d) (slot_edge_ids slot))"
    by (simp add: sorted_wrt_map saved_edge_def)
  have later: "(r, s, d) \<le> (relationID e, srcNodeID e, destNodeID e)"
    if "e \<in> set (matrix_edges r ts)" for e
  proof -
    from matrix_edges_member[OF that] obtain t' where
      "relationID e = r" "t' \<in> set ts" "(srcNodeID e, destNodeID e) = position t'"
      by auto
    moreover have "position t < position t'" using Cons.prems \<open>t' \<in> set ts\<close> by auto
    ultimately show ?thesis by (auto simp: t position_def less_eq_prod_def less_prod_def)
  qed
  show ?case
    using Cons same later
    by (auto simp: t matrix_edges_Cons sorted_wrt_append saved_edge_def)
qed

lemma graph_edges_from_member:
  "e \<in> set (graph_edges_from g r) \<Longrightarrow> r \<le> relationID e"
  by (auto simp: graph_edges_from_def dest!: matrix_edges_member)

lemma graph_edges_ordered:
  assumes "list_all row_major (relations g)"
  shows "sorted_wrt (\<lambda>a b. (relationID a, srcNodeID a, destNodeID a)
                       \<le> (relationID b, srcNodeID b, destNodeID b)) (graph_edges_from g r)"
proof (induction "length (relations g) - r" arbitrary: r)
  case 0
  then show ?case by (simp add: graph_edges_from_end)
next
  case (Suc n)
  then have r: "r < length (relations g)" and n: "n = length (relations g) - Suc r" by auto
  have "row_major (relations g ! r)" using assms r by (simp add: list_all_length)
  then have here: "sorted_wrt (\<lambda>a b. (relationID a, srcNodeID a, destNodeID a)
                       \<le> (relationID b, srcNodeID b, destNodeID b))
      (matrix_edges r (tuples (relations g ! r)))"
    unfolding row_major_def by (rule matrix_edges_sorted)
  have cross: "(relationID a, srcNodeID a, destNodeID a) \<le> (relationID b, srcNodeID b, destNodeID b)"
    if "a \<in> set (matrix_edges r (tuples (relations g ! r)))"
      and "b \<in> set (graph_edges_from g (Suc r))" for a b
    using matrix_edges_member[OF that(1)] graph_edges_from_member[OF that(2)]
    by (auto simp: less_eq_prod_def)
  show ?case
    using here Suc.hyps(1)[OF n] cross
    by (simp add: graph_edges_from_unfold[OF r] sorted_wrt_append)
qed

subsection \<open>A call of more than \<open>2 ^ 32\<close> edges\<close>

lemma loop_single_step:
  assumes "A it = Some M" and "rest it = (s, d, Single e) # ts" and "enc < e2e"
  shows "save_edges_loop g e2e (r, it, src, dest, arr, idx, enc, rdb)
           = save_edges_loop g e2e (r, it\<lparr>rest := ts\<rparr>, s, d, arr, idx, enc + 1,
               rdb @ [saved_edge r s d e])"
  using assms(3)
  by (subst save_edges_loop.simps)
     (simp add: next_cons[OF assms(1,2)] fetch_success saved_edge_written)

lemma loop_singles_run:
  assumes "A it = Some M" and "rest it = map (\<lambda>i. (i, i, Single i)) xs @ ys"
    and "enc + length xs \<le> e2e"
  shows "\<exists>src' dest'. save_edges_loop g e2e (r, it, src, dest, arr, idx, enc, rdb)
           = save_edges_loop g e2e (r, it\<lparr>rest := ys\<rparr>, src', dest', arr, idx, enc + length xs,
               rdb @ map (\<lambda>i. saved_edge r i i i) xs)"
  using assms
proof (induction xs arbitrary: it src dest enc rdb)
  case Nil
  then have "it\<lparr>rest := ys\<rparr> = it" by simp
  then show ?case by auto
next
  case (Cons x xs)
  let ?it1 = "it\<lparr>rest := map (\<lambda>i. (i, i, Single i)) xs @ ys\<rparr>"
  have step: "save_edges_loop g e2e (r, it, src, dest, arr, idx, enc, rdb)
           = save_edges_loop g e2e (r, ?it1, x, x, arr, idx, enc + 1, rdb @ [saved_edge r x x x])"
    using Cons.prems by (intro loop_single_step[where M = M]) auto
  have "\<exists>src' dest'. save_edges_loop g e2e (r, ?it1, x, x, arr, idx, enc + 1, rdb @ [saved_edge r x x x])
           = save_edges_loop g e2e (r, ?it1\<lparr>rest := ys\<rparr>, src', dest', arr, idx, enc + 1 + length xs,
               (rdb @ [saved_edge r x x x]) @ map (\<lambda>i. saved_edge r i i i) xs)"
    using Cons.prems by (intro Cons.IH) auto
  then show ?case using step by simp
qed

lemma length_matrix_edges_singles:
  "length (matrix_edges r (map (\<lambda>i. (i, i, Single i)) xs @ [(a, b, Multi es)])) = length xs + length es"
  by (induction xs) (simp_all add: matrix_edges_def slot_edge_ids_def)

lemma big_edge_count: "Graph_EdgeCount example_big_graph = 2 ^ 32 + 2"
  by (simp add: Graph_EdgeCount_def graph_edges_from_def example_big_graph_def
      length_matrix_edges_singles)

lemma big_graph_edges:
  "graph_edges_from example_big_graph 0
     = map (\<lambda>i. saved_edge 0 i i i) [0..<2 ^ 32]
       @ [saved_edge 0 (2 ^ 32) 0 (2 ^ 32), saved_edge 0 (2 ^ 32) 0 (2 ^ 32 + 1)]"
proof -
  have "matrix_edges r (map (\<lambda>i. (i, i, Single i)) xs @ ys)
          = map (\<lambda>i. saved_edge r i i i) xs @ matrix_edges r ys" for r xs ys
    by (induction xs) (simp_all add: matrix_edges_def slot_edge_ids_def)
  then show ?thesis
    by (simp add: graph_edges_from_def example_big_graph_def)
       (simp add: matrix_edges_def slot_edge_ids_def)
qed

lemma big_first_call:
  "RdbSaveEdges_v14 [] example_big_graph GraphEncodeContext_New (2 ^ 32 + 1)
     = Some (graph_edges_from example_big_graph 0,
         GraphEncodeContext_New\<lparr>current_relation_matrix_id := 1,
            matrix_tuple_iterator :=
              \<lparr>A = Some (relations example_big_graph ! 0), rest = []\<rparr>,
            multiple_edges_src_id := 2 ^ 32\<rparr>)"
proof -
  define E :: nat where "E = 2 ^ 32 + 1"
  define M where "M = relations example_big_graph ! 0"
  define it where "it = RG_MatrixTupleIter_attach detached_iter M"
  define tl :: "EdgeSlot tuple list" where "tl = [(2 ^ 32, 0, Multi [2 ^ 32, 2 ^ 32 + 1])]"
  define out where "out = map (\<lambda>i. saved_edge 0 i i i) [0..<2 ^ 32]
      @ [saved_edge 0 (2 ^ 32) 0 (2 ^ 32), saved_edge 0 (2 ^ 32) 0 (2 ^ 32 + 1)]"
  have A: "A it = Some M" by (simp add: it_def RG_MatrixTupleIter_attach_def)
  have R: "rest it = map (\<lambda>i. (i, i, Single i)) [0..<2 ^ 32] @ tl"
    by (simp add: it_def M_def tl_def RG_MatrixTupleIter_attach_def example_big_graph_def)
  have cnt: "Graph_RelationTypeCount example_big_graph = 1"
    by (simp add: Graph_RelationTypeCount_def example_big_graph_def)
  have "0 + length [0..<(2::nat) ^ 32] \<le> E" by (simp add: E_def)
  from loop_singles_run[OF A R this, of example_big_graph 0 0 0 None 0 "[]"]
  obtain s d where run: "save_edges_loop example_big_graph E (0, it, 0, 0, None, 0, 0, [])
      = save_edges_loop example_big_graph E (0, it\<lparr>rest := tl\<rparr>, s, d, None, 0, 2 ^ 32,
          map (\<lambda>i. saved_edge 0 i i i) [0..<2 ^ 32])"
    by auto
  have tail: "save_edges_loop example_big_graph E (0, it\<lparr>rest := tl\<rparr>, s, d, None, 0, 2 ^ 32, rdb)
      = Some (1, it\<lparr>rest := []\<rparr>, 2 ^ 32, 0, None, 0, 2,
          rdb @ [saved_edge 0 (2 ^ 32) 0 (2 ^ 32), saved_edge 0 (2 ^ 32) 0 (2 ^ 32 + 1)])" for rdb
    apply (subst save_edges_loop.simps)
    apply (simp add: E_def tl_def next_cons[where M = M] A fetch_success RdbSaveMultipleEdges_def
        save_multiple_step save_multiple_stop)
    apply (subst save_edges_loop.simps)
    apply (simp add: next_nil[where M = M] A next_relation_loop.simps cnt)
    done
  have loop_eq: "save_edges_loop example_big_graph E (0, it, 0, 0, None, 0, 0, [])
      = Some (1, it\<lparr>rest := []\<rparr>, 2 ^ 32, 0, None, 0, 2, out)"
    unfolding run tail out_def ..
  have get: "Graph_GetRelationMatrix example_big_graph 0 = Some M"
    by (simp add: Graph_GetRelationMatrix_def M_def example_big_graph_def)
  have att: "\<not> RG_MatrixTupleIter_is_attached detached_iter M"
    by (simp add: RG_MatrixTupleIter_is_attached_def detached_iter_def)
  have ne: "E \<noteq> 0" "E \<noteq> Graph_EdgeCount example_big_graph"
    by (simp_all add: E_def big_edge_count)
  have "RdbSaveEdges_v14 [] example_big_graph GraphEncodeContext_New E
      = Some (out, GraphEncodeContext_New\<lparr>current_relation_matrix_id := 1,
            matrix_tuple_iterator := it\<lparr>rest := []\<rparr>,
            multiple_edges_array := None, multiple_edges_current_index := 0,
            multiple_edges_src_id := 2 ^ 32, multiple_edges_dest_id := 0\<rparr>)"
    unfolding RdbSaveEdges_v14_def Let_def
    by (simp add: ne get att GraphEncodeContext_New_def loop_eq[unfolded it_def] it_def)
  moreover have "it\<lparr>rest := []\<rparr> = \<lparr>A = Some M, rest = []\<rparr>"
    by (simp add: it_def RG_MatrixTupleIter_attach_def)
  ultimately show ?thesis
    by (simp add: E_def out_def M_def big_graph_edges GraphEncodeContext_New_def)
qed

text \<open>
  Claim C10, at a failing input. The graph has one relation with \<open>2 ^ 32\<close>
  single-edge slots followed by a multi-edge slot of two edges, \<open>2 ^ 32 + 2\<close> edges
  in all, and is encoded by two calls of \<open>2 ^ 32 + 1\<close> and \<open>1\<close> edges. The
  first call reaches the multi-edge slot with \<open>2 ^ 32\<close> edges encoded;
  \<^verbatim>\<open>_RdbSaveMultipleEdges\<close> copies that count into a 32-bit local, where it is
  \<open>0\<close>, writes both edges of the slot and stores \<open>2\<close> back. The call so writes
  all \<open>2 ^ 32 + 2\<close> edges instead of its \<open>2 ^ 32 + 1\<close>, runs the iterator to
  exhaustion and leaves the relation id at the number of relations with no array saved;
  the second call then asks for a matrix that does not exist.
\<close>

theorem save_edges_count_truncated:
  "Graph_EdgeCount example_big_graph = 2 ^ 32 + 2
   \<and> map_option fst
         (RdbSaveEdges_v14 [] example_big_graph GraphEncodeContext_New (2 ^ 32 + 1))
       = Some (graph_edges_from example_big_graph 0)
   \<and> map_option (length \<circ> fst)
         (RdbSaveEdges_v14 [] example_big_graph GraphEncodeContext_New (2 ^ 32 + 1))
       = Some (2 ^ 32 + 2)
   \<and> save_edges_calls example_big_graph GraphEncodeContext_New [2 ^ 32 + 1, 1] = None"
proof -
  define E :: nat where "E = 2 ^ 32 + 1"
  define ctx1 where "ctx1 = GraphEncodeContext_New\<lparr>current_relation_matrix_id := 1,
            matrix_tuple_iterator :=
              \<lparr>A = Some (relations example_big_graph ! 0), rest = []\<rparr>,
            multiple_edges_src_id := 2 ^ 32\<rparr>"
  have first: "RdbSaveEdges_v14 [] example_big_graph GraphEncodeContext_New E
      = Some (graph_edges_from example_big_graph 0, ctx1)"
    using big_first_call by (simp add: E_def ctx1_def)
  have "Graph_GetRelationMatrix example_big_graph 1 = None"
    by (simp add: Graph_GetRelationMatrix_def example_big_graph_def)
  then have second: "RdbSaveEdges_v14 [] example_big_graph (ctx1\<lparr>enc_offset := e\<rparr>) (Suc 0) = None"
    for e
    by (simp add: RdbSaveEdges_v14_def Let_def ctx1_def)
  have calls: "save_edges_calls example_big_graph GraphEncodeContext_New [E, Suc 0] = None"
    by (simp add: first second)
  have len: "length (graph_edges_from example_big_graph 0) = 2 ^ 32 + 2"
    using big_edge_count by (simp add: Graph_EdgeCount_def)
  show ?thesis
    unfolding E_def[symmetric]
    by (simp add: first calls len big_edge_count del: save_edges_calls.simps)
qed

end
